theory Spec2Isabelle
  imports Complex_Main "HOL-Library.Word"
begin

section \<open>Python values shared by all components\<close>

text \<open>
  Byte strings are lists of 8-bit words. Text is a list of characters; a character stands
  for a code point below 256. Exceptions are values of \<open>py_error\<close>. A call either
  returns, raises, or never returns (\<open>Hangs\<close>: the loop of
  \<open>AudioChunker.add_audio\<close> does not exit when the chunk size is not positive).
\<close>

type_synonym byte = "8 word"
type_synonym bytes = "byte list"

datatype py_error = TypeError | AttributeError | KeyError | BinasciiError | AudioopError | ConnectionClosed

datatype outcome = Returns | Raises py_error | Hangs

text \<open>Python slices \<open>xs[:n]\<close> and \<open>xs[n:]\<close>; a negative bound counts from the end.\<close>

definition py_upto :: "int \<Rightarrow> 'a list \<Rightarrow> 'a list" where
  "py_upto n xs = (if 0 \<le> n then take (nat n) xs else take (nat (int (length xs) + n)) xs)"

definition py_from :: "int \<Rightarrow> 'a list \<Rightarrow> 'a list" where
  "py_from n xs = (if 0 \<le> n then drop (nat n) xs else drop (nat (int (length xs) + n)) xs)"

text \<open>
  The characters Python counts as whitespace in \<open>str.strip\<close> and in the regular
  expression class \<open>\\s\<close>, among the code points below 256.
\<close>

definition whitespace :: "char list" where
  "whitespace = [CHR 0x09, CHR 0x0A, CHR 0x0B, CHR 0x0C, CHR 0x0D, CHR 0x1C, CHR 0x1D,
                 CHR 0x1E, CHR 0x1F, CHR 0x20, CHR 0x85, CHR 0xA0]"

definition is_space :: "char \<Rightarrow> bool" where
  "is_space c = (c \<in> set whitespace)"

definition py_strip :: "string \<Rightarrow> string" where
  "py_strip s = rev (dropWhile is_space (rev (dropWhile is_space s)))"

section \<open>riva\_tts\_client.py: AudioChunker\<close>

record audio_chunker =
  chunk_size :: int
  buffer :: bytes

text \<open>\<open>AudioChunker()\<close>: the default chunk size is 160.\<close>

definition new_chunker :: audio_chunker where
  "new_chunker = \<lparr>chunk_size = 160, buffer = []\<rparr>"

text \<open>
  The \<open>while len(self.buffer) >= self.chunk_size\<close> loop of \<open>add_audio\<close>. The value
  \<open>None\<close> stands for a loop that never exits.
\<close>

partial_function (option) add_audio_loop :: "int \<Rightarrow> bytes \<Rightarrow> bytes list \<Rightarrow> (bytes list \<times> bytes) option" where
  "add_audio_loop cs buf chunks =
     (if cs \<le> int (length buf)
      then add_audio_loop cs (py_from cs buf) (chunks @ [py_upto cs buf])
      else Some (chunks, buf))"

declare add_audio_loop.simps [code]

definition add_audio :: "audio_chunker \<Rightarrow> bytes \<Rightarrow> (bytes list \<times> audio_chunker) option" where
  "add_audio c audio_data =
     map_option (\<lambda>(chunks, buf). (chunks, c\<lparr>buffer := buf\<rparr>))
       (add_audio_loop (chunk_size c) (buffer c @ audio_data) [])"

definition get_remaining :: "audio_chunker \<Rightarrow> bytes \<times> audio_chunker" where
  "get_remaining c =
     (if buffer c \<noteq> [] then
        (let padding_needed = chunk_size c - int (length (buffer c));
             buf = (if 0 < padding_needed then buffer c @ replicate (nat padding_needed) 0
                    else buffer c)
         in (buf, c\<lparr>buffer := []\<rparr>))
      else ([], c))"

text \<open>
  A sequence of writes: \<open>add_audio\<close> once per write, the returned chunks collected in
  order.
\<close>

fun add_all :: "audio_chunker \<Rightarrow> bytes list \<Rightarrow> (bytes list \<times> audio_chunker) option" where
  "add_all c [] = Some ([], c)"
| "add_all c (w # ws) =
     (case add_audio c w of
        None \<Rightarrow> None
      | Some (chunks, c') \<Rightarrow>
          (case add_all c' ws of
             None \<Rightarrow> None
           | Some (later, c'') \<Rightarrow> Some (chunks @ later, c'')))"

section \<open>openai\_client.py: ResponseBuffer\<close>

record response_buffer =
  parts_buffer :: "string list"
  complete :: bool

definition new_response_buffer :: response_buffer where
  "new_response_buffer = \<lparr>parts_buffer = [], complete = False\<rparr>"

definition add_chunk :: "response_buffer \<Rightarrow> string \<Rightarrow> response_buffer" where
  "add_chunk rb chunk = rb\<lparr>parts_buffer := parts_buffer rb @ [chunk]\<rparr>"

definition clear :: "response_buffer \<Rightarrow> response_buffer" where
  "clear rb = rb\<lparr>parts_buffer := [], complete := False\<rparr>"

definition rb_get_remaining :: "response_buffer \<Rightarrow> string" where
  "rb_get_remaining rb = concat (parts_buffer rb)"

text \<open>
  The pattern \<open>[.!?]\\s+\<close>. \<open>match_here\<close> matches it at the start of the text and
  returns the matched text and what follows it; the run of whitespace is greedy.
\<close>

definition is_ending :: "char \<Rightarrow> bool" where
  "is_ending c = (c \<in> set ''.!?'')"

fun match_here :: "string \<Rightarrow> (string \<times> string) option" where
  "match_here [] = None"
| "match_here (c # s) =
     (if is_ending c \<and> takeWhile is_space s \<noteq> []
      then Some (c # takeWhile is_space s, dropWhile is_space s)
      else None)"

text \<open>\<open>sentence_endings.split(text)\<close>: the pieces between the matches, left to right.\<close>

function split_from :: "string \<Rightarrow> string \<Rightarrow> string list" where
  "split_from cur [] = [cur]"
| "split_from cur (c # s) =
     (if is_ending c \<and> takeWhile is_space s \<noteq> []
      then cur # split_from [] (dropWhile is_space s)
      else split_from (cur @ [c]) s)"
  by pat_completeness auto
termination
  by (relation "measure (\<lambda>(cur, s). length s)") (auto simp: less_Suc_eq_le length_dropWhile_le)

definition re_split :: "string \<Rightarrow> string list" where
  "re_split text = split_from [] text"

text \<open>\<open>sentence_endings.search(text)\<close>: \<open>group(0)\<close> of the leftmost match, if any.\<close>

fun re_search :: "string \<Rightarrow> string option" where
  "re_search [] = None"
| "re_search (c # s) =
     (case match_here (c # s) of
        Some (m, rest) \<Rightarrow> Some m
      | None \<Rightarrow> re_search s)"

text \<open>
  \<open>text[key]\<close> with a \<open>str\<close> key: string indices must be integers, so Python raises
  \<open>TypeError\<close> whatever the key.
\<close>

definition str_getitem_str :: "string \<Rightarrow> string \<Rightarrow> py_error + string" where
  "str_getitem_str text key = Inl TypeError"

text \<open>
  The loop \<open>for i in range(len(parts) - 1)\<close> with its body
  \<open>sentences.append(parts[i] + text[sentence_endings.search(text).group(0)])\<close>.
\<close>

fun sentence_loop :: "string \<Rightarrow> string list \<Rightarrow> nat list \<Rightarrow> string list \<Rightarrow> py_error + string list" where
  "sentence_loop text parts [] sentences = Inr sentences"
| "sentence_loop text parts (i # is) sentences =
     (case re_search text of
        None \<Rightarrow> Inl AttributeError
      | Some g \<Rightarrow>
          (case str_getitem_str text g of
             Inl e \<Rightarrow> Inl e
           | Inr sep \<Rightarrow> sentence_loop text parts is (sentences @ [parts ! i @ sep])))"

definition get_complete_sentences :: "response_buffer \<Rightarrow> py_error + (string list \<times> response_buffer)" where
  "get_complete_sentences rb =
     (let text = concat (parts_buffer rb);
          parts = re_split text
      in if 1 < length parts then
           (case sentence_loop text parts [0 ..< length parts - 1] [] of
              Inl e \<Rightarrow> Inl e
            | Inr sentences \<Rightarrow> Inr (sentences, rb\<lparr>parts_buffer := [last parts]\<rparr>))
         else Inr ([], rb))"

text \<open>
  The segmenter driven as \<open>process_with_ai\<close> drives it: \<open>add_chunk\<close>, then
  \<open>get_complete_sentences\<close>, once per increment; the sentences are collected in order.
\<close>

fun feed :: "response_buffer \<Rightarrow> string list \<Rightarrow> py_error + (string list \<times> response_buffer)" where
  "feed rb [] = Inr ([], rb)"
| "feed rb (chunk # chunks) =
     (case get_complete_sentences (add_chunk rb chunk) of
        Inl e \<Rightarrow> Inl e
      | Inr (sentences, rb') \<Rightarrow>
          (case feed rb' chunks of
             Inl e \<Rightarrow> Inl e
           | Inr (later, rb'') \<Rightarrow> Inr (sentences @ later, rb'')))"

section \<open>openai\_client.py: ConversationManager\<close>

datatype role = System | User | Assistant

record turn =
  role :: role
  content :: string

definition system_prompt :: string where
  "system_prompt =
     ''You are a helpful AI assistant on a phone call. '' @ [CHR 0x0A] @
     ''        Keep your responses concise and natural for voice conversation.'' @ [CHR 0x0A] @
     ''        Be friendly, professional, and helpful.'' @ [CHR 0x0A] @
     ''        Avoid using markdown, special characters, or formatting that doesn'' @ [CHR 0x27] @
     ''t work well with speech.'' @ [CHR 0x0A] @
     ''        If you need to provide lists, speak them naturally.'' @ [CHR 0x0A] @
     ''        Remember this is a phone conversation, so responses should be conversational.''"

text \<open>The text \<open>get_response\<close> yields from its \<open>except\<close> branch.\<close>

definition generation_apology :: string where
  "generation_apology =
     ''I apologize, but I'' @ [CHR 0x27] @ ''m having trouble processing that right now.''"

text \<open>
  What the generation service does with one request is an input of the model: the call
  \<open>chat.completions.create\<close> raises, or it returns a stream. A stream is a list of
  deltas (\<open>delta.content\<close>, which may be \<open>None\<close>); \<open>StreamFailure\<close> is an
  exception raised while the stream is read.
\<close>

datatype api_delta = Delta "string option" | StreamFailure

datatype api_outcome = CreateFails | Streams "api_delta list"

text \<open>
  \<open>conversations\<close> is the \<open>defaultdict(list)\<close> keyed by caller identity.
  \<open>requests\<close> records the \<open>messages\<close> argument of every call of
  \<open>chat.completions.create\<close>, in order.
\<close>

record conversation_manager =
  conversations :: "string \<rightharpoonup> turn list"
  requests :: "turn list list"

definition new_conversation_manager :: conversation_manager where
  "new_conversation_manager = \<lparr>conversations = Map.empty, requests = []\<rparr>"

definition conversation_of :: "conversation_manager \<Rightarrow> string \<Rightarrow> turn list" where
  "conversation_of cm caller_id = (case conversations cm caller_id of None \<Rightarrow> [] | Some h \<Rightarrow> h)"

text \<open>\<open>self.conversations[caller_id].append(t)\<close>.\<close>

definition append_turn :: "conversation_manager \<Rightarrow> string \<Rightarrow> turn \<Rightarrow> conversation_manager" where
  "append_turn cm caller_id t =
     cm\<lparr>conversations := (conversations cm)(caller_id \<mapsto> conversation_of cm caller_id @ [t])\<rparr>"

text \<open>The system prompt, then \<open>self.conversations[caller_id][-10:]\<close>.\<close>

definition prepare_messages :: "turn list \<Rightarrow> turn list" where
  "prepare_messages hist = \<lparr>role = System, content = system_prompt\<rparr> # py_from (- 10) hist"

definition clear_conversation :: "conversation_manager \<Rightarrow> string \<Rightarrow> conversation_manager" where
  "clear_conversation cm caller_id =
     (if conversations cm caller_id \<noteq> None
      then cm\<lparr>conversations := (conversations cm)(caller_id := None)\<rparr>
      else cm)"

text \<open>
  \<open>get_response\<close> (with \<open>stream=True\<close>, as \<open>process_transcript\<close> calls it) is an
  asynchronous generator. \<open>gen_state\<close> is where it is suspended: not started (text,
  caller, what the service will do), awaiting \<open>chat.completions.create\<close> (caller, what
  the service will do), awaiting the next chunk of the stream (caller,
  \<open>full_response\<close>, the deltas still to come), at \<open>yield content\<close> (the same), or
  finished. \<open>get_response_step\<close> resumes it and runs it to where it next gives way: an
  await (\<open>Awaits\<close>), a \<open>yield\<close> (\<open>Yields\<close>) or its end (\<open>Stops\<close>). The request
  is recorded when \<open>create\<close> is called, before the await on it.
\<close>

datatype gen_state =
    GenStart string string api_outcome
  | GenCreate string api_outcome
  | GenRead string string "api_delta list"
  | GenYielded string string "api_delta list"
  | GenDone

datatype gen_action = Awaits | Yields string | Stops

fun get_response_step :: "gen_state \<Rightarrow> conversation_manager
    \<Rightarrow> gen_action \<times> gen_state \<times> conversation_manager" where
  "get_response_step (GenStart text caller_id api) cm =
     (let cm1 = append_turn cm caller_id \<lparr>role = User, content = text\<rparr>;
          messages = prepare_messages (conversation_of cm1 caller_id);
          cm2 = cm1\<lparr>requests := requests cm1 @ [messages]\<rparr>
      in (Awaits, GenCreate caller_id api, cm2))"
| "get_response_step (GenCreate caller_id CreateFails) cm =
     (Yields generation_apology, GenDone, cm)"
| "get_response_step (GenCreate caller_id (Streams items)) cm =
     (Awaits, GenRead caller_id [] items, cm)"
| "get_response_step (GenRead caller_id full_response []) cm =
     (Stops, GenDone, append_turn cm caller_id \<lparr>role = Assistant, content = full_response\<rparr>)"
| "get_response_step (GenRead caller_id full_response (Delta None # items)) cm =
     (Awaits, GenRead caller_id full_response items, cm)"
| "get_response_step (GenRead caller_id full_response (Delta (Some c) # items)) cm =
     (Yields c, GenYielded caller_id (full_response @ c) items, cm)"
| "get_response_step (GenRead caller_id full_response (StreamFailure # items)) cm =
     (Yields generation_apology, GenDone, cm)"
| "get_response_step (GenYielded caller_id full_response items) cm =
     (Awaits, GenRead caller_id full_response items, cm)"
| "get_response_step GenDone cm = (Stops, GenDone, cm)"

text \<open>A bound on the steps the generator still takes.\<close>

fun api_fuel :: "api_outcome \<Rightarrow> nat" where
  "api_fuel CreateFails = 1"
| "api_fuel (Streams items) = 2 * length items + 2"

fun gen_fuel :: "gen_state \<Rightarrow> nat" where
  "gen_fuel (GenStart text caller_id api) = Suc (api_fuel api)"
| "gen_fuel (GenCreate caller_id api) = api_fuel api"
| "gen_fuel (GenRead caller_id full_response items) = 2 * length items + 1"
| "gen_fuel (GenYielded caller_id full_response items) = 2 * length items + 2"
| "gen_fuel GenDone = 0"

text \<open>
  The generator consumed to its end while nothing else runs at its awaits: everything
  it yields, and the manager it leaves.
\<close>

function get_response :: "gen_state \<Rightarrow> conversation_manager \<Rightarrow> string list \<times> conversation_manager" where
  "get_response g cm =
     (case get_response_step g cm of
        (Awaits, g', cm') \<Rightarrow> get_response g' cm'
      | (Yields c, g', cm') \<Rightarrow> (c # fst (get_response g' cm'), snd (get_response g' cm'))
      | (Stops, g', cm') \<Rightarrow> ([], cm'))"
  by pat_completeness auto
termination
proof -
  have step: "get_response_step g cm = (a, g', cm') \<Longrightarrow> a \<noteq> Stops \<Longrightarrow> gen_fuel g' < gen_fuel g"
    for g cm a g' cm'
    by (induction g cm rule: get_response_step.induct) (auto simp: Let_def)
  show ?thesis
    by (relation "measure (\<lambda>(g, cm). gen_fuel g)") (auto dest: step step[OF sym])
qed

section \<open>Library functions\<close>

text \<open>
  The functions of \<open>base64\<close> and \<open>audioop\<close> the program calls are parameters of the
  model; \<open>None\<close> is a raised exception. \<open>sample_count n\<close> is the floating-point value
  \<open>int(8000 * (n * 0.05))\<close> of \<open>RivaTTSClient.synthesize\<close> for a text of length \<open>n\<close>.
\<close>

record lib =
  b64decode :: "string \<Rightarrow> bytes option"
  b64encode :: "bytes \<Rightarrow> string"
  ulaw2lin :: "bytes \<Rightarrow> bytes"
  lin2ulaw :: "bytes \<Rightarrow> bytes option"
  rms :: "bytes \<Rightarrow> int"
  ratecv :: "bytes \<Rightarrow> nat \<Rightarrow> nat \<Rightarrow> nat \<Rightarrow> nat \<Rightarrow> bytes option"
  sample_count :: "nat \<Rightarrow> nat"

section \<open>riva\_asr\_client.py: RivaASRClient\<close>

record asr_result =
  transcript :: string
  is_final :: bool
  confidence :: real

definition placeholder_result :: asr_result where
  "placeholder_result = \<lparr>transcript = ''[Processing audio...]'', is_final = False, confidence = 0\<rparr>"

definition resample_audio :: "lib \<Rightarrow> bytes \<Rightarrow> nat \<Rightarrow> nat \<Rightarrow> bytes option" where
  "resample_audio L audio_data from_rate to_rate = ratecv L audio_data 2 1 from_rate to_rate"

text \<open>What the audio stream does when asked for its next item: a chunk, or an exception.\<close>

datatype audio_item = AudioChunk bytes | AudioStreamError

text \<open>
  The loop of \<open>streaming_recognize\<close> over the items the stream delivers, with
  \<open>audio_buffer\<close> as accumulator. Every yielded result is paired with the
  \<open>combined_audio\<close> computed just before it. An exception ends the generator (the
  \<open>except\<close> branch logs it).
\<close>

fun recognize_loop :: "lib \<Rightarrow> audio_item list \<Rightarrow> bytes list \<Rightarrow> (asr_result \<times> bytes) list" where
  "recognize_loop L [] audio_buffer = []"
| "recognize_loop L (AudioStreamError # items) audio_buffer = []"
| "recognize_loop L (AudioChunk audio_chunk # items) audio_buffer =
     (case resample_audio L audio_chunk 8000 16000 of
        None \<Rightarrow> []
      | Some resampled_audio \<Rightarrow>
          (let audio_buffer' = audio_buffer @ [resampled_audio]
           in if 50 \<le> length audio_buffer'
              then (placeholder_result, concat audio_buffer') # recognize_loop L items []
              else recognize_loop L items audio_buffer'))"

definition streaming_recognize :: "lib \<Rightarrow> audio_item list \<Rightarrow> asr_result list" where
  "streaming_recognize L audio_stream = map fst (recognize_loop L audio_stream [])"

definition combined_audio :: "lib \<Rightarrow> audio_item list \<Rightarrow> bytes list" where
  "combined_audio L audio_stream = map snd (recognize_loop L audio_stream [])"

section \<open>riva\_asr\_client.py: AudioProcessor; riva\_tts\_client.py: synthesis\<close>

record audio_processor =
  audio_queue :: "bytes list"
  is_processing :: bool

definition new_processor :: audio_processor where
  "new_processor = \<lparr>audio_queue = [], is_processing = False\<rparr>"

definition processor_add_audio :: "audio_processor \<Rightarrow> bytes \<Rightarrow> audio_processor" where
  "processor_add_audio p audio_chunk = p\<lparr>audio_queue := audio_queue p @ [audio_chunk]\<rparr>"

definition stop_processing :: "audio_processor \<Rightarrow> audio_processor" where
  "stop_processing p = p\<lparr>is_processing := False\<rparr>"

record audio_output_manager =
  is_playing :: bool
  playback_queue :: "bytes list"

definition new_output_manager :: audio_output_manager where
  "new_output_manager = \<lparr>is_playing = False, playback_queue = []\<rparr>"

text \<open>\<open>AudioOutputManager.interrupt\<close>: the flag is lowered and the queue drained.\<close>

definition interrupt :: "audio_output_manager \<Rightarrow> audio_output_manager" where
  "interrupt m = m\<lparr>is_playing := False, playback_queue := []\<rparr>"

text \<open>
  \<open>RivaTTSClient.synthesize\<close>: silence of \<open>sample_count * 2\<close> bytes, yielded in slices
  \<open>silence[i:i+320]\<close> for \<open>i\<close> in \<open>range(0, len(silence), 320)\<close>.
\<close>

definition synthesize :: "lib \<Rightarrow> string \<Rightarrow> bytes list" where
  "synthesize L text =
     (let silence = replicate (sample_count L (length text) * 2) (0 :: byte)
      in map (\<lambda>k. take 320 (drop (k * 320) silence)) [0 ..< (length silence + 319) div 320])"

section \<open>main.py: VoiceAgent\<close>

text \<open>
  A connection identity is \<open>id(websocket)\<close>. The per-connection objects live in
  stores indexed by references: the dictionaries of the agent hold references, and a
  coroutine that looked an object up keeps its reference after the dictionary entry is
  deleted.
\<close>

type_synonym cid = int
type_synonym ref = nat

record connection =
  stream_sid :: "string option"
  call_sid :: "string option"
  caller_number :: string
  websocket :: cid
  start_time :: real

text \<open>
  Inbound transport events, already parsed. A start event carries \<open>streamSid\<close>,
  \<open>callSid\<close> and the custom parameter \<open>from\<close> (each \<open>None\<close> when absent), and the
  clock of the event loop when it is handled. A media event carries its payload.
\<close>

record start_data =
  streamSid :: "string option"
  callSid :: "string option"
  from_number :: "string option"

datatype event = StartEvent start_data real | MediaEvent "string option" | StopEvent | OtherEvent

text \<open>
  Outbound messages: \<open>{event: media, streamSid, media: {payload}}\<close> and
  \<open>{event: clear, streamSid}\<close>.
\<close>

datatype message = MediaMessage "string option" string | ClearMessage "string option"

datatype task = AsrProcessing cid | Greeting cid

text \<open>
  The state of the agent. \<open>sent\<close> records every message passed to
  \<open>websocket.send\<close> with the identity of the websocket, \<open>synthesized\<close> every text
  passed to \<open>tts_client.synthesize\<close>, \<open>spawned\<close> every task created by
  \<open>asyncio.create_task\<close>, each in order.
\<close>

record voice_agent =
  connections :: "cid \<rightharpoonup> connection"
  audio_buffers :: "cid \<rightharpoonup> bytes"
  stream_sids :: "cid \<rightharpoonup> string option"
  call_sids :: "cid \<rightharpoonup> string option"
  caller_numbers :: "cid \<rightharpoonup> string"
  audio_processors :: "cid \<rightharpoonup> ref"
  output_managers :: "cid \<rightharpoonup> ref"
  audio_chunkers :: "cid \<rightharpoonup> ref"
  response_buffers :: "cid \<rightharpoonup> ref"
  is_speaking :: "cid \<rightharpoonup> bool"
  last_transcript :: "cid \<rightharpoonup> string"
  conversation_manager :: conversation_manager
  processor_objs :: "ref \<Rightarrow> audio_processor"
  manager_objs :: "ref \<Rightarrow> audio_output_manager"
  chunker_objs :: "ref \<Rightarrow> audio_chunker"
  buffer_objs :: "ref \<Rightarrow> response_buffer"
  next_ref :: ref
  sent :: "(cid \<times> message) list"
  synthesized :: "string list"
  spawned :: "task list"

text \<open>\<open>VoiceAgent.__init__\<close>.\<close>

definition init_agent :: voice_agent where
  "init_agent =
     \<lparr>connections = Map.empty, audio_buffers = Map.empty, stream_sids = Map.empty,
      call_sids = Map.empty, caller_numbers = Map.empty, audio_processors = Map.empty,
      output_managers = Map.empty, audio_chunkers = Map.empty, response_buffers = Map.empty,
      is_speaking = Map.empty, last_transcript = Map.empty,
      conversation_manager = new_conversation_manager,
      processor_objs = (\<lambda>r. new_processor), manager_objs = (\<lambda>r. new_output_manager),
      chunker_objs = (\<lambda>r. new_chunker), buffer_objs = (\<lambda>r. new_response_buffer),
      next_ref = 0, sent = [], synthesized = [], spawned = []\<rparr>"

text \<open>The first lines of \<open>handle_connection\<close>: four fresh objects for the connection.\<close>

definition init_connection :: "cid \<Rightarrow> voice_agent \<Rightarrow> voice_agent" where
  "init_connection c st =
     (let r = next_ref st
      in st\<lparr>audio_processors := (audio_processors st)(c \<mapsto> r),
            output_managers := (output_managers st)(c \<mapsto> r),
            audio_chunkers := (audio_chunkers st)(c \<mapsto> r),
            response_buffers := (response_buffers st)(c \<mapsto> r),
            processor_objs := (processor_objs st)(r := new_processor),
            manager_objs := (manager_objs st)(r := new_output_manager),
            chunker_objs := (chunker_objs st)(r := new_chunker),
            buffer_objs := (buffer_objs st)(r := new_response_buffer),
            next_ref := Suc r\<rparr>)"

text \<open>
  Reading \<open>self.is_speaking[connection_id]\<close>: the \<open>defaultdict(bool)\<close> inserts
  \<open>False\<close> under a key it does not have.
\<close>

definition read_is_speaking :: "cid \<Rightarrow> voice_agent \<Rightarrow> bool \<times> voice_agent" where
  "read_is_speaking c st =
     (case is_speaking st c of
        Some b \<Rightarrow> (b, st)
      | None \<Rightarrow> (False, st\<lparr>is_speaking := (is_speaking st)(c \<mapsto> False)\<rparr>))"

text \<open>The flag as a reader sees it, without the insertion.\<close>

definition speaking :: "voice_agent \<Rightarrow> cid \<Rightarrow> bool" where
  "speaking st c = (is_speaking st c = Some True)"

definition handle_start :: "start_data \<Rightarrow> real \<Rightarrow> cid \<Rightarrow> cid \<Rightarrow> voice_agent \<Rightarrow> voice_agent" where
  "handle_start start now c ws st =
     (let caller = (case from_number start of None \<Rightarrow> ''Unknown'' | Some n \<Rightarrow> n)
      in st\<lparr>stream_sids := (stream_sids st)(c \<mapsto> streamSid start),
            call_sids := (call_sids st)(c \<mapsto> callSid start),
            caller_numbers := (caller_numbers st)(c \<mapsto> caller),
            connections := (connections st)(c \<mapsto>
               \<lparr>stream_sid = streamSid start, call_sid = callSid start,
                caller_number = caller, websocket = ws, start_time = now\<rparr>),
            spawned := spawned st @ [AsrProcessing c, Greeting c]\<rparr>)"

text \<open>
  The voice-activity check of \<open>handle_media\<close> (lines 140 to 147), then the hand-over
  of the audio to the recognition queue.
\<close>

definition check_interruption :: "lib \<Rightarrow> bytes \<Rightarrow> cid \<Rightarrow> voice_agent \<Rightarrow> outcome \<times> voice_agent" where
  "check_interruption L pcm_audio c st =
     (let (is_spk, st1) = read_is_speaking c st
      in if is_spk then
           (let audio_level = rms L pcm_audio
            in if 500 < audio_level then
                 (case output_managers st1 c of
                    None \<Rightarrow> (Raises KeyError, st1)
                  | Some om \<Rightarrow>
                      (Returns,
                       st1\<lparr>manager_objs := (manager_objs st1)(om := interrupt (manager_objs st1 om)),
                           is_speaking := (is_speaking st1)(c \<mapsto> False)\<rparr>))
               else (Returns, st1))
         else (Returns, st1))"

definition handle_media :: "lib \<Rightarrow> string option \<Rightarrow> cid \<Rightarrow> voice_agent \<Rightarrow> outcome \<times> voice_agent" where
  "handle_media L payload c st =
     (case payload of
        None \<Rightarrow> (Returns, st)
      | Some p \<Rightarrow>
          if p \<noteq> [] \<and> audio_processors st c \<noteq> None then
            (case b64decode L p of
               None \<Rightarrow> (Raises BinasciiError, st)
             | Some audio_bytes \<Rightarrow>
                 (let pcm_audio = ulaw2lin L audio_bytes
                  in case check_interruption L pcm_audio c st of
                       (Returns, st1) \<Rightarrow>
                         (case audio_processors st1 c of
                            None \<Rightarrow> (Raises KeyError, st1)
                          | Some pr \<Rightarrow>
                              (Returns,
                               st1\<lparr>processor_objs := (processor_objs st1)
                                     (pr := processor_add_audio (processor_objs st1 pr) pcm_audio)\<rparr>))
                     | (r, st1) \<Rightarrow> (r, st1)))
          else (Returns, st))"

definition cleanup_connection :: "cid \<Rightarrow> voice_agent \<Rightarrow> voice_agent" where
  "cleanup_connection c st =
     (let st1 = (case audio_processors st c of
                   None \<Rightarrow> st
                 | Some pr \<Rightarrow>
                     st\<lparr>processor_objs := (processor_objs st)(pr := stop_processing (processor_objs st pr)),
                        audio_processors := (audio_processors st)(c := None)\<rparr>);
          st2 = (case caller_numbers st1 c of
                   None \<Rightarrow> st1
                 | Some caller_id \<Rightarrow>
                     if caller_id \<noteq> []
                     then st1\<lparr>conversation_manager := clear_conversation (conversation_manager st1) caller_id\<rparr>
                     else st1)
      in st2\<lparr>connections := (connections st2)(c := None),
             audio_buffers := (audio_buffers st2)(c := None),
             stream_sids := (stream_sids st2)(c := None),
             call_sids := (call_sids st2)(c := None),
             caller_numbers := (caller_numbers st2)(c := None),
             output_managers := (output_managers st2)(c := None),
             audio_chunkers := (audio_chunkers st2)(c := None),
             response_buffers := (response_buffers st2)(c := None),
             is_speaking := (is_speaking st2)(c := None),
             last_transcript := (last_transcript st2)(c := None)\<rparr>)"

text \<open>
  \<open>process_message\<close> for the events of connection \<open>c\<close>: every exception of a handler
  is caught and logged, and what the handler did before it stays done.
\<close>

definition process_message :: "lib \<Rightarrow> event \<Rightarrow> cid \<Rightarrow> voice_agent \<Rightarrow> voice_agent" where
  "process_message L ev c st =
     (case ev of
        StartEvent start now \<Rightarrow> handle_start start now c c st
      | MediaEvent payload \<Rightarrow> snd (handle_media L payload c st)
      | StopEvent \<Rightarrow> cleanup_connection c st
      | OtherEvent \<Rightarrow> st)"

text \<open>
  A coroutine gives way to other tasks only where it awaits. What happens at an await
  is an input of the model, one \<open>tick\<close> per await: the inbound events of the connection
  handled meanwhile and, where \<open>synthesize_and_send\<close> awaits \<open>websocket.send\<close> (and
  the \<open>sleep\<close> after it), whether the send succeeds. At the other awaits
  (\<open>asyncio.sleep\<close> in \<open>send_greeting\<close>, \<open>chat.completions.create\<close> and every read of
  its stream in \<open>get_response\<close>) only the inbound events of the tick matter. A tick list
  that has run out stands for sends that succeed with no inbound event.
\<close>

record tick =
  send_ok :: bool
  inbound :: "event list"

fun next_tick :: "tick list \<Rightarrow> tick \<times> tick list" where
  "next_tick [] = (\<lparr>send_ok = True, inbound = []\<rparr>, [])"
| "next_tick (t # ticks) = (t, ticks)"

fun deliver :: "lib \<Rightarrow> cid \<Rightarrow> event list \<Rightarrow> voice_agent \<Rightarrow> voice_agent" where
  "deliver L c [] st = st"
| "deliver L c (ev # evs) st = deliver L c evs (process_message L ev c st)"

definition send_media :: "lib \<Rightarrow> cid \<Rightarrow> cid \<Rightarrow> string option \<Rightarrow> bytes \<Rightarrow> tick list \<Rightarrow> voice_agent
    \<Rightarrow> outcome \<times> tick list \<times> voice_agent" where
  "send_media L c ws sid chunk ticks st =
     (let (t, ticks') = next_tick ticks
      in if send_ok t
         then (Returns, ticks',
               deliver L c (inbound t) (st\<lparr>sent := sent st @ [(ws, MediaMessage sid (b64encode L chunk))]\<rparr>))
         else (Raises ConnectionClosed, ticks', deliver L c (inbound t) st))"

text \<open>\<open>TwilioMediaStreamHandler.send_clear_to_twilio\<close> of websocket\_server.py.\<close>

definition send_clear_to_twilio :: "cid \<Rightarrow> string option \<Rightarrow> voice_agent \<Rightarrow> voice_agent" where
  "send_clear_to_twilio ws sid st = st\<lparr>sent := sent st @ [(ws, ClearMessage sid)]\<rparr>"

text \<open>The loop \<open>for chunk in chunks\<close> of \<open>synthesize_and_send\<close>.\<close>

fun send_chunks :: "lib \<Rightarrow> cid \<Rightarrow> cid \<Rightarrow> string option \<Rightarrow> bytes list \<Rightarrow> tick list \<Rightarrow> voice_agent
    \<Rightarrow> outcome \<times> tick list \<times> voice_agent" where
  "send_chunks L c ws sid [] ticks st = (Returns, ticks, st)"
| "send_chunks L c ws sid (chunk # chunks) ticks st =
     (case send_media L c ws sid chunk ticks st of
        (Returns, ticks', st') \<Rightarrow> send_chunks L c ws sid chunks ticks' st'
      | other \<Rightarrow> other)"

definition set_playing :: "ref \<Rightarrow> bool \<Rightarrow> voice_agent \<Rightarrow> voice_agent" where
  "set_playing om b st = st\<lparr>manager_objs := (manager_objs st)(om := (manager_objs st om)\<lparr>is_playing := b\<rparr>)\<rparr>"

text \<open>
  The loop \<open>async for audio_chunk in output_manager.synthesize_and_queue(text)\<close> over
  the chunks the synthesis still has to deliver. Each round first resumes the generator
  \<open>synthesize_and_queue\<close>: at the end of the audio, or when \<open>is_playing\<close> is down, it
  lowers \<open>is_playing\<close> in its \<open>finally\<close> and the loop ends; an exception of
  \<open>lin2ulaw\<close> passes through the same \<open>finally\<close>. Then comes the body of the loop of
  \<open>synthesize_and_send\<close>; when it leaves by \<open>break\<close> or by an exception the generator
  stays suspended.
\<close>

fun synth_loop :: "lib \<Rightarrow> cid \<Rightarrow> cid \<Rightarrow> string option \<Rightarrow> ref \<Rightarrow> ref \<Rightarrow> bytes list \<Rightarrow> tick list \<Rightarrow> voice_agent
    \<Rightarrow> outcome \<times> tick list \<times> voice_agent" where
  "synth_loop L c ws sid om ch [] ticks st = (Returns, ticks, set_playing om False st)"
| "synth_loop L c ws sid om ch (audio_chunk # rest) ticks st =
     (if \<not> is_playing (manager_objs st om) then (Returns, ticks, set_playing om False st)
      else
        (case lin2ulaw L audio_chunk of
           None \<Rightarrow> (Raises AudioopError, ticks, set_playing om False st)
         | Some ulaw_audio \<Rightarrow>
             (let (is_spk, st1) = read_is_speaking c st
              in if \<not> is_spk then (Returns, ticks, st1)
                 else
                   (case add_audio (chunker_objs st1 ch) ulaw_audio of
                      None \<Rightarrow> (Hangs, ticks, st1)
                    | Some (chunks, chunker') \<Rightarrow>
                        (case send_chunks L c ws sid chunks ticks
                                (st1\<lparr>chunker_objs := (chunker_objs st1)(ch := chunker')\<rparr>) of
                           (Returns, ticks', st2) \<Rightarrow> synth_loop L c ws sid om ch rest ticks' st2
                         | other \<Rightarrow> other)))))"

text \<open>
  The \<open>try\<close> block of \<open>synthesize_and_send\<close>: the flag is raised, the generator
  starts (the text goes to the synthesis client, \<open>is_playing\<close> is raised), the loop runs,
  and what \<open>chunker.get_remaining()\<close> returns is sent when it is not empty.
\<close>

definition synth_try :: "lib \<Rightarrow> cid \<Rightarrow> cid \<Rightarrow> string option \<Rightarrow> ref \<Rightarrow> ref \<Rightarrow> string \<Rightarrow> tick list \<Rightarrow> voice_agent
    \<Rightarrow> outcome \<times> tick list \<times> voice_agent" where
  "synth_try L c ws sid om ch text ticks st =
     (let st1 = st\<lparr>is_speaking := (is_speaking st)(c \<mapsto> True)\<rparr>;
          st2 = set_playing om True (st1\<lparr>synthesized := synthesized st1 @ [text]\<rparr>)
      in case synth_loop L c ws sid om ch (synthesize L text) ticks st2 of
           (Returns, ticks', st3) \<Rightarrow>
             (let (remaining, chunker') = get_remaining (chunker_objs st3 ch);
                  st4 = st3\<lparr>chunker_objs := (chunker_objs st3)(ch := chunker')\<rparr>
              in if remaining \<noteq> [] then send_media L c ws sid remaining ticks' st4
                 else (Returns, ticks', st4))
         | other \<Rightarrow> other)"

text \<open>
  \<open>synthesize_and_send\<close>: the guard and the four look-ups stand before the \<open>try\<close>;
  \<open>except Exception\<close> logs, and \<open>finally\<close> lowers the flag.
\<close>

definition synthesize_and_send :: "lib \<Rightarrow> cid \<Rightarrow> string \<Rightarrow> tick list \<Rightarrow> voice_agent
    \<Rightarrow> outcome \<times> tick list \<times> voice_agent" where
  "synthesize_and_send L c text ticks st =
     (case connections st c of
        None \<Rightarrow> (Returns, ticks, st)
      | Some conn \<Rightarrow>
          (case stream_sids st c of
             None \<Rightarrow> (Raises KeyError, ticks, st)
           | Some sid \<Rightarrow>
               (case output_managers st c of
                  None \<Rightarrow> (Raises KeyError, ticks, st)
                | Some om \<Rightarrow>
                    (case audio_chunkers st c of
                       None \<Rightarrow> (Raises KeyError, ticks, st)
                     | Some ch \<Rightarrow>
                         (case synth_try L c (websocket conn) sid om ch text ticks st of
                            (Hangs, ticks', st') \<Rightarrow> (Hangs, ticks', st')
                          | (r, ticks', st') \<Rightarrow>
                              (Returns, ticks', st'\<lparr>is_speaking := (is_speaking st')(c \<mapsto> False)\<rparr>))))))"

definition greeting :: string where
  "greeting = ''Hello! I'' @ [CHR 0x27] @ ''m your AI assistant. How can I help you today?''"

text \<open>\<open>send_greeting\<close> first awaits \<open>asyncio.sleep(0.5)\<close>: one tick.\<close>

definition send_greeting :: "lib \<Rightarrow> cid \<Rightarrow> tick list \<Rightarrow> voice_agent \<Rightarrow> outcome \<times> tick list \<times> voice_agent" where
  "send_greeting L c ticks st =
     (let (t, ticks') = next_tick ticks
      in synthesize_and_send L c greeting ticks' (deliver L c (inbound t) st))"

text \<open>The text \<open>process_with_ai\<close> synthesizes from its \<open>except\<close> branch.\<close>

definition processing_apology :: string where
  "processing_apology = ''I apologize, but I'' @ [CHR 0x27] @ ''m having trouble processing that.''"

text \<open>The loop \<open>for sentence in complete_sentences\<close> of \<open>process_with_ai\<close>.\<close>

fun synth_all :: "lib \<Rightarrow> cid \<Rightarrow> string list \<Rightarrow> tick list \<Rightarrow> voice_agent \<Rightarrow> outcome \<times> tick list \<times> voice_agent" where
  "synth_all L c [] ticks st = (Returns, ticks, st)"
| "synth_all L c (sentence # sentences) ticks st =
     (case synthesize_and_send L c sentence ticks st of
        (Returns, ticks', st') \<Rightarrow> synth_all L c sentences ticks' st'
      | other \<Rightarrow> other)"

text \<open>
  The loop \<open>async for chunk in self.openai_client.process_transcript(...)\<close> of
  \<open>process_with_ai\<close>, from the state \<open>g\<close> of the generator; \<open>rb\<close> is the response
  buffer the coroutine looked up. Where the generator awaits the generation service a
  tick passes: the inbound events that arrive meanwhile are handled before it goes on.
\<close>

function consume :: "lib \<Rightarrow> cid \<Rightarrow> ref \<Rightarrow> gen_state \<Rightarrow> tick list \<Rightarrow> voice_agent
    \<Rightarrow> outcome \<times> tick list \<times> voice_agent" where
  "consume L c rb g ticks st =
     (case get_response_step g (conversation_manager st) of
        (Stops, g', cm') \<Rightarrow> (Returns, ticks, st\<lparr>conversation_manager := cm'\<rparr>)
      | (Awaits, g', cm') \<Rightarrow>
          (let (t, ticks') = next_tick ticks
           in consume L c rb g' ticks' (deliver L c (inbound t) (st\<lparr>conversation_manager := cm'\<rparr>)))
      | (Yields chunk, g', cm') \<Rightarrow>
          (let st1 = st\<lparr>conversation_manager := cm',
                        buffer_objs := (buffer_objs st)(rb := add_chunk (buffer_objs st rb) chunk)\<rparr>
           in case get_complete_sentences (buffer_objs st1 rb) of
                Inl e \<Rightarrow> (Raises e, ticks, st1)
              | Inr (complete_sentences, rb') \<Rightarrow>
                  (case synth_all L c complete_sentences ticks
                          (st1\<lparr>buffer_objs := (buffer_objs st1)(rb := rb')\<rparr>) of
                     (Returns, ticks', st2) \<Rightarrow> consume L c rb g' ticks' st2
                   | other \<Rightarrow> other)))"
  by pat_completeness auto
termination
proof -
  have step: "get_response_step g cm = (a, g', cm') \<Longrightarrow> a \<noteq> Stops \<Longrightarrow> gen_fuel g' < gen_fuel g"
    for g cm a g' cm'
    by (induction g cm rule: get_response_step.induct) (auto simp: Let_def)
  show ?thesis
    by (relation "measure (\<lambda>(L, c, rb, g, ticks, st). gen_fuel g)") (auto dest: step step[OF sym])
qed

text \<open>The \<open>try\<close> block of \<open>process_with_ai\<close>.\<close>

definition respond_try :: "lib \<Rightarrow> cid \<Rightarrow> ref \<Rightarrow> gen_state \<Rightarrow> tick list \<Rightarrow> voice_agent
    \<Rightarrow> outcome \<times> tick list \<times> voice_agent" where
  "respond_try L c rb g ticks st =
     (case consume L c rb g ticks st of
        (Returns, ticks', st') \<Rightarrow>
          (let remaining = rb_get_remaining (buffer_objs st' rb)
           in if py_strip remaining \<noteq> [] then synthesize_and_send L c remaining ticks' st'
              else (Returns, ticks', st'))
      | other \<Rightarrow> other)"

definition process_with_ai :: "lib \<Rightarrow> cid \<Rightarrow> string \<Rightarrow> api_outcome \<Rightarrow> tick list \<Rightarrow> voice_agent
    \<Rightarrow> outcome \<times> tick list \<times> voice_agent" where
  "process_with_ai L c text api ticks st =
     (if connections st c = None then (Returns, ticks, st)
      else
        (let caller_id = (case caller_numbers st c of None \<Rightarrow> ''unknown'' | Some n \<Rightarrow> n)
         in case response_buffers st c of
              None \<Rightarrow> (Raises KeyError, ticks, st)
            | Some rb \<Rightarrow>
                (let st1 = st\<lparr>buffer_objs := (buffer_objs st)(rb := clear (buffer_objs st rb))\<rparr>
                 in case respond_try L c rb (GenStart text caller_id api) ticks st1 of
                      (Raises e, ticks', st') \<Rightarrow> synthesize_and_send L c processing_apology ticks' st'
                    | other \<Rightarrow> other)))"

text \<open>The callback \<open>handle_transcript\<close> of \<open>start_asr_processing\<close>.\<close>

definition handle_transcript :: "lib \<Rightarrow> cid \<Rightarrow> asr_result \<Rightarrow> api_outcome \<Rightarrow> tick list \<Rightarrow> voice_agent
    \<Rightarrow> outcome \<times> tick list \<times> voice_agent" where
  "handle_transcript L c result api ticks st =
     (if is_final result \<and> py_strip (transcript result) \<noteq> [] then
        process_with_ai L c (transcript result) api ticks
          (st\<lparr>last_transcript := (last_transcript st)(c \<mapsto> transcript result)\<rparr>)
      else (Returns, ticks, st))"

section \<open>Predicates on the state of the agent\<close>

text \<open>
  \<open>live\<close>: the four look-ups at the head of \<open>synthesize_and_send\<close> succeed.
  \<open>agent_inv\<close>: a connection is flagged as speaking only while it is live, and every
  registered chunker has a positive chunk size. The invariant holds in the initial
  state and every operation of the agent keeps it.
\<close>

definition live :: "voice_agent \<Rightarrow> cid \<Rightarrow> bool" where
  "live st c = (connections st c \<noteq> None \<and> stream_sids st c \<noteq> None
                \<and> output_managers st c \<noteq> None \<and> audio_chunkers st c \<noteq> None)"

definition agent_inv :: "voice_agent \<Rightarrow> bool" where
  "agent_inv st = ((\<forall>c. speaking st c \<longrightarrow> live st c)
                   \<and> (\<forall>c ch. audio_chunkers st c = Some ch \<longrightarrow> 0 < chunk_size (chunker_objs st ch)))"

text \<open>
  A quiet event is one that cannot interrupt: no start or stop, and a media event whose
  payload is absent, is rejected by the decoder, or has a level of at most 500. A quiet
  tick is a successful send during which only quiet events arrive.
\<close>

definition quiet_event :: "lib \<Rightarrow> event \<Rightarrow> bool" where
  "quiet_event L ev =
     (case ev of
        MediaEvent None \<Rightarrow> True
      | MediaEvent (Some p) \<Rightarrow>
          (case b64decode L p of None \<Rightarrow> True | Some a \<Rightarrow> rms L (ulaw2lin L a) \<le> 500)
      | OtherEvent \<Rightarrow> True
      | _ \<Rightarrow> False)"

definition quiet_tick :: "lib \<Rightarrow> tick \<Rightarrow> bool" where
  "quiet_tick L t = (send_ok t \<and> list_all (quiet_event L) (inbound t))"

text \<open>
  An event that leaves the registration of the connection alone and starts no task:
  neither a start nor a stop.
\<close>

definition keeps_session :: "event \<Rightarrow> bool" where
  "keeps_session ev = (case ev of StartEvent start now \<Rightarrow> False | StopEvent \<Rightarrow> False | _ \<Rightarrow> True)"

text \<open>
  A connection in the middle of a fragment: registered, flagged as speaking, its output
  manager playing, and its chunker (of chunk size 160) holding no partial frame.
\<close>

definition playing :: "voice_agent \<Rightarrow> cid \<Rightarrow> ref \<Rightarrow> ref \<Rightarrow> bool" where
  "playing st c om ch =
     (output_managers st c = Some om \<and> audio_processors st c \<noteq> None
      \<and> is_speaking st c = Some True \<and> is_playing (manager_objs st om)
      \<and> chunk_size (chunker_objs st ch) = 160 \<and> buffer (chunker_objs st ch) = [])"

text \<open>
  Two states with the same traces of generation requests and of synthesized texts.
\<close>

definition trace_eq :: "voice_agent \<Rightarrow> voice_agent \<Rightarrow> bool" where
  "trace_eq st st' = (requests (conversation_manager st') = requests (conversation_manager st)
                      \<and> synthesized st' = synthesized st)"

section \<open>A stand-in library for concrete runs\<close>

text \<open>
  Simple functions in the place of \<open>base64\<close> and \<open>audioop\<close>, for evaluating the
  model on concrete inputs: every byte of a payload decodes to one byte of audio, a
  payload containing \<open>=\<close> is rejected, the level of a frame is the sum of its bytes,
  audio of odd length is rejected by the converters, and a text of \<open>n\<close> characters
  gives \<open>400 * n\<close> samples.
\<close>

definition stub_lib :: lib where
  "stub_lib =
     \<lparr>b64decode = (\<lambda>s. if CHR ''='' \<in> set s then None else Some (map of_char s)),
      b64encode = (\<lambda>b. map (\<lambda>x. if x = 255 then CHR ''/'' else CHR ''A'') b),
      ulaw2lin = (\<lambda>b. concat (map (\<lambda>x. [x, x]) b)),
      lin2ulaw = (\<lambda>b. if even (length b) then Some (replicate (length b div 2) 255) else None),
      rms = (\<lambda>b. sum_list (map uint b)),
      ratecv = (\<lambda>b width nchannels inrate outrate.
                  if even (length b) then Some (concat (map (\<lambda>x. [x, x]) b)) else None),
      sample_count = (\<lambda>n. 400 * n)\<rparr>"

section \<open>Concrete scenarios\<close>

text \<open>
  Two connections, 1 and 2, set up by \<open>handle_connection\<close> and started by start events
  of the same caller; the caller has one exchange in the conversation history.
\<close>

definition caller_a :: string where
  "caller_a = ''+15551234567''"

definition two_calls :: voice_agent where
  "two_calls =
     (let start = \<lparr>streamSid = Some ''MZ1'', callSid = Some ''CA1'', from_number = Some caller_a\<rparr>;
          st = handle_start start 0 2 2 (handle_start start 0 1 1
                 (init_connection 2 (init_connection 1 init_agent)))
      in st\<lparr>conversation_manager :=
              snd (get_response (GenStart ''Hi'' caller_a (Streams [Delta (Some ''Hello'')]))
                     (conversation_manager st))\<rparr>)"


text \<open>One connection, 1, set up and started.\<close>

definition live_call :: voice_agent where
  "live_call =
     handle_start \<lparr>streamSid = Some ''MZ1'', callSid = Some ''CA1'', from_number = Some caller_a\<rparr> 0 1 1
       (init_connection 1 init_agent)"

section \<open>Theorems\<close>

declare get_response.simps [simp del]
declare consume.simps [simp del]

subsection \<open>AudioChunker\<close>

lemma add_audio_loop_total:
  "0 < cs \<Longrightarrow>
   \<exists>out buf'. add_audio_loop cs buf acc = Some (acc @ out, buf') \<and> concat out @ buf' = buf
      \<and> (\<forall>c\<in>set out. int (length c) = cs) \<and> int (length buf') < cs"
proof (induction "length buf" arbitrary: buf acc rule: less_induct)
  case less
  show ?case
  proof (cases "cs \<le> int (length buf)")
    case False
    then show ?thesis by (subst add_audio_loop.simps) simp
  next
    case True
    let ?b = "py_from cs buf" and ?a = "acc @ [py_upto cs buf]"
    have shorter: "length ?b < length buf"
      using True less.prems by (simp add: py_from_def)
    from less.hyps[OF shorter less.prems, of ?a]
    obtain out buf' where h: "add_audio_loop cs ?b ?a = Some (?a @ out, buf')"
      "concat out @ buf' = ?b" "\<forall>c\<in>set out. int (length c) = cs" "int (length buf') < cs"
      by blast
    have "add_audio_loop cs buf acc = Some (acc @ (py_upto cs buf # out), buf')"
      using True h(1) by (subst add_audio_loop.simps) simp
    moreover have "concat (py_upto cs buf # out) @ buf' = buf"
      using h(2) less.prems by (simp add: py_from_def py_upto_def)
    moreover have "\<forall>c\<in>set (py_upto cs buf # out). int (length c) = cs"
      using h(3) True less.prems by (simp add: py_upto_def)
    ultimately show ?thesis using h(4) by blast
  qed
qed

lemma add_audio_props:
  assumes "0 < chunk_size c"
  shows "\<exists>chunks c'. add_audio c w = Some (chunks, c') \<and> chunk_size c' = chunk_size c
           \<and> concat chunks @ buffer c' = buffer c @ w
           \<and> (\<forall>ch\<in>set chunks. int (length ch) = chunk_size c)
           \<and> int (length (buffer c')) < chunk_size c"
proof -
  from add_audio_loop_total[OF assms, of "buffer c @ w" "[]"]
  obtain out buf' where h: "add_audio_loop (chunk_size c) (buffer c @ w) [] = Some (out, buf')"
    "concat out @ buf' = buffer c @ w" "\<forall>ch\<in>set out. int (length ch) = chunk_size c"
    "int (length buf') < chunk_size c"
    by auto
  have "add_audio c w = Some (out, c\<lparr>buffer := buf'\<rparr>)"
    by (simp add: add_audio_def h(1))
  with h show ?thesis by simp
qed

lemma add_all_props:
  "0 < chunk_size c \<Longrightarrow> int (length (buffer c)) < chunk_size c \<Longrightarrow>
   \<exists>chunks c'. add_all c ws = Some (chunks, c') \<and> chunk_size c' = chunk_size c
           \<and> concat chunks @ buffer c' = buffer c @ concat ws
           \<and> (\<forall>ch\<in>set chunks. int (length ch) = chunk_size c)
           \<and> int (length (buffer c')) < chunk_size c"
proof (induction ws arbitrary: c)
  case Nil
  then show ?case by simp
next
  case (Cons w ws)
  from add_audio_props[OF Cons.prems(1), of w]
  obtain chunks c1 where a: "add_audio c w = Some (chunks, c1)" "chunk_size c1 = chunk_size c"
    "concat chunks @ buffer c1 = buffer c @ w" "\<forall>ch\<in>set chunks. int (length ch) = chunk_size c"
    "int (length (buffer c1)) < chunk_size c"
    by blast
  from Cons.IH[of c1] a(2) a(5) Cons.prems(1)
  obtain later c2 where b: "add_all c1 ws = Some (later, c2)" "chunk_size c2 = chunk_size c"
    "concat later @ buffer c2 = buffer c1 @ concat ws" "\<forall>ch\<in>set later. int (length ch) = chunk_size c"
    "int (length (buffer c2)) < chunk_size c"
    by auto
  have "add_all c (w # ws) = Some (chunks @ later, c2)"
    by (simp add: a(1) b(1))
  moreover have "concat (chunks @ later) @ buffer c2 = buffer c @ concat (w # ws)"
    using a(3) b(3) by (metis append.assoc concat.simps(2) concat_append)
  ultimately show ?case using a(4) b(2,4,5) by auto
qed

lemma get_remaining_props:
  "int (length (buffer c)) < chunk_size c \<Longrightarrow>
   get_remaining c = (buffer c @ replicate (if buffer c = [] then 0 else nat (chunk_size c) - length (buffer c)) 0, c\<lparr>buffer := []\<rparr>)"
  by (auto simp: get_remaining_def Let_def nat_diff_distrib)

text \<open>
  Claim C2. Whatever the writes passed to \<open>add_audio\<close> of a chunker whose buffer is
  shorter than its chunk size (a fresh chunker has an empty buffer), every call returns;
  every returned chunk has exactly \<open>chunk_size\<close> bytes; the chunks in order, followed
  by the buffer left, are the bytes already buffered followed by all writes; and the final
  \<open>get_remaining\<close> returns that rest followed by zero bytes only (none when the rest
  is empty), which is either empty or exactly one chunk long, and empties the buffer. So
  the chunks plus the final flush are the concatenated writes, padded with zeros at the
  end of the flush only.
\<close>

theorem chunker_round_trip:
  assumes "int (length (buffer c)) < chunk_size c"
  shows "\<exists>chunks c' pad.
           add_all c writes = Some (chunks, c') \<and>
           (\<forall>ch\<in>set chunks. int (length ch) = chunk_size c) \<and>
           concat chunks @ buffer c' = buffer c @ concat writes \<and>
           pad = (if buffer c' = [] then 0 else nat (chunk_size c) - length (buffer c')) \<and>
           fst (get_remaining c') = buffer c' @ replicate pad 0 \<and>
           concat chunks @ fst (get_remaining c') = buffer c @ concat writes @ replicate pad 0 \<and>
           (fst (get_remaining c') = [] \<or> int (length (fst (get_remaining c'))) = chunk_size c) \<and>
           buffer (snd (get_remaining c')) = []"
proof -
  have pos: "0 < chunk_size c" using assms by linarith
  from add_all_props[OF pos assms, of writes]
  obtain chunks c' where h: "add_all c writes = Some (chunks, c')" "chunk_size c' = chunk_size c"
    "concat chunks @ buffer c' = buffer c @ concat writes"
    "\<forall>ch\<in>set chunks. int (length ch) = chunk_size c" "int (length (buffer c')) < chunk_size c"
    by blast
  let ?pad = "if buffer c' = [] then 0 else nat (chunk_size c) - length (buffer c')"
  have g: "get_remaining c' = (buffer c' @ replicate ?pad 0, c'\<lparr>buffer := []\<rparr>)"
    using get_remaining_props[of c'] h(2,5) by simp
  have len: "fst (get_remaining c') = [] \<or> int (length (fst (get_remaining c'))) = chunk_size c"
    using h(5) by (auto simp: g)
  have cat: "concat chunks @ fst (get_remaining c') = buffer c @ concat writes @ replicate ?pad 0"
    using h(3) by (simp add: g)
  show ?thesis using h(1,3,4) g len cat by simp
qed

theorem chunker_round_trip_witness:
  "int (length (buffer (new_chunker\<lparr>chunk_size := 4\<rparr>))) < chunk_size (new_chunker\<lparr>chunk_size := 4\<rparr>) \<and>
   add_all (new_chunker\<lparr>chunk_size := 4\<rparr>) [[1, 2, 3], [4, 5, 6, 7, 8, 9]]
     = Some ([[1, 2, 3, 4], [5, 6, 7, 8]], \<lparr>chunk_size = 4, buffer = [9]\<rparr>) \<and>
   get_remaining \<lparr>chunk_size = 4, buffer = [9]\<rparr> = ([9, 0, 0, 0], \<lparr>chunk_size = 4, buffer = []\<rparr>) \<and>
   (\<exists>chunks c' pad.
      add_all (new_chunker\<lparr>chunk_size := 4\<rparr>) [[1, 2, 3], [4, 5, 6, 7, 8, 9]] = Some (chunks, c') \<and>
      concat chunks @ fst (get_remaining c') = [1, 2, 3, 4, 5, 6, 7, 8, 9] @ replicate pad 0)"
proof -
  have h: "int (length (buffer (new_chunker\<lparr>chunk_size := 4\<rparr>))) < chunk_size (new_chunker\<lparr>chunk_size := 4\<rparr>)"
    by (simp add: new_chunker_def)
  have e: "add_all (new_chunker\<lparr>chunk_size := 4\<rparr>) [[1, 2, 3], [4, 5, 6, 7, 8, 9]]
     = Some ([[1, 2, 3, 4], [5, 6, 7, 8]], \<lparr>chunk_size = 4, buffer = [9]\<rparr>)"
    by code_simp
  have g: "get_remaining \<lparr>chunk_size = 4, buffer = [9]\<rparr> = ([9, 0, 0, 0], \<lparr>chunk_size = 4, buffer = []\<rparr>)"
    by code_simp
  from chunker_round_trip[OF h, of "[[1, 2, 3], [4, 5, 6, 7, 8, 9]]"]
  have "\<exists>chunks c' pad.
      add_all (new_chunker\<lparr>chunk_size := 4\<rparr>) [[1, 2, 3], [4, 5, 6, 7, 8, 9]] = Some (chunks, c') \<and>
      concat chunks @ fst (get_remaining c') = [1, 2, 3, 4, 5, 6, 7, 8, 9] @ replicate pad 0"
    by (simp add: new_chunker_def) blast
  with h e g show ?thesis by blast
qed

subsection \<open>ResponseBuffer\<close>

lemma split_from_nonempty: "split_from cur s \<noteq> []"
  by (induction cur s rule: split_from.induct) auto

lemma split_from_length:
  "length (split_from cur s) = Suc 0 \<longleftrightarrow> re_search s = None"
  by (induction cur s rule: split_from.induct) (auto simp: split_from_nonempty)

lemma split_from_single:
  "re_search s = None \<Longrightarrow> split_from cur s = [cur @ s]"
  by (induction cur s rule: split_from.induct) (auto split: if_splits)

lemma get_complete_sentences_eq:
  "get_complete_sentences rb =
     (if re_search (concat (parts_buffer rb)) = None then Inr ([], rb) else Inl TypeError)"
proof (cases "re_search (concat (parts_buffer rb))")
  case None
  then show ?thesis
    by (simp add: get_complete_sentences_def re_split_def split_from_single)
next
  case (Some g)
  let ?parts = "re_split (concat (parts_buffer rb))"
  have "length ?parts \<noteq> Suc 0"
    using Some by (simp add: re_split_def split_from_length)
  moreover have "?parts \<noteq> []" by (simp add: re_split_def split_from_nonempty)
  ultimately have long: "1 < length ?parts"
    by (cases ?parts) auto
  then have "[0 ..< length ?parts - 1] = 0 # [1 ..< length ?parts - 1]"
    by (simp add: upt_conv_Cons)
  then show ?thesis
    using Some long by (simp add: get_complete_sentences_def Let_def str_getitem_str_def)
qed

text \<open>
  Claim C1 (the code departs from it). As soon as the buffered text holds a sentence
  boundary, \<open>get_complete_sentences\<close> raises \<open>TypeError\<close>: it indexes the text
  with the matched separator. Fed the increments \<open>Hello. \<close> and \<open>World\<close>, the
  segmenter raises at the first one and returns no sentence.
\<close>

theorem segmenter_raises:
  "feed new_response_buffer [''Hello. '', ''World''] = Inl TypeError"
  by code_simp

subsection \<open>ConversationManager\<close>

lemma py_from_last10: "py_from (- 10) xs = drop (length xs - 10) xs"
proof -
  have "nat (int (length xs) + - 10) = length xs - 10" by linarith
  then show ?thesis by (simp add: py_from_def)
qed

lemma append_turn_requests [simp]: "requests (append_turn cm c t) = requests cm"
  by (simp add: append_turn_def)

lemma step_requests_later:
  "get_response_step g cm = (a, g', cm') \<Longrightarrow> \<forall>t c api. g \<noteq> GenStart t c api \<Longrightarrow> requests cm' = requests cm"
  by (induction g cm rule: get_response_step.induct) auto

lemma step_requests_start:
  "get_response_step (GenStart text caller api) cm = (a, g', cm') \<Longrightarrow>
   requests cm' = requests cm @
     [prepare_messages (conversation_of cm caller @ [\<lparr>role = User, content = text\<rparr>])]"
  by (auto simp: Let_def append_turn_def conversation_of_def)

lemma step_not_start:
  "get_response_step g cm = (a, g', cm') \<Longrightarrow> g' \<noteq> GenStart t c' api"
  by (induction g cm rule: get_response_step.induct) (auto simp: Let_def)

lemma step_fuel:
  "get_response_step g cm = (a, g', cm') \<Longrightarrow> a \<noteq> Stops \<Longrightarrow> gen_fuel g' < gen_fuel g"
  by (induction g cm rule: get_response_step.induct) (auto simp: Let_def)

lemma get_response_unfold:
  "get_response g cm =
     (case get_response_step g cm of
        (Awaits, g', cm') \<Rightarrow> get_response g' cm'
      | (Yields x, g', cm') \<Rightarrow> (x # fst (get_response g' cm'), snd (get_response g' cm'))
      | (Stops, g', cm') \<Rightarrow> ([], cm'))"
  by (rule get_response.simps)

lemma get_response_requests_later:
  "\<forall>t c api. g \<noteq> GenStart t c api \<Longrightarrow> requests (snd (get_response g cm)) = requests cm"
proof (induction "gen_fuel g" arbitrary: g cm rule: less_induct)
  case less
  obtain a g' cm' where n: "get_response_step g cm = (a, g', cm')"
    by (cases "get_response_step g cm") auto
  have r: "requests cm' = requests cm" using step_requests_later[OF n] less.prems by simp
  have ns: "\<forall>t c api. g' \<noteq> GenStart t c api" using step_not_start[OF n] by simp
  show ?case
  proof (cases a)
    case Stops
    then show ?thesis using n r by (subst get_response_unfold) simp
  next
    case Awaits
    have "requests (snd (get_response g' cm')) = requests cm'"
      using less.hyps[OF step_fuel[OF n] ns] Awaits by simp
    then show ?thesis using n r Awaits by (subst get_response_unfold) simp
  next
    case (Yields x)
    have "requests (snd (get_response g' cm')) = requests cm'"
      using less.hyps[OF step_fuel[OF n] ns] Yields by simp
    then show ?thesis using n r Yields by (subst get_response_unfold) simp
  qed
qed

text \<open>
  Claim C4. Whatever history a caller has accumulated, one run of \<open>get_response\<close>
  issues exactly one request; its messages are the system prompt followed by the last ten
  turns of the history extended with the new user turn (all of them when there are fewer),
  so at most eleven messages.
\<close>

theorem context_window_bounded:
  "requests (snd (get_response (GenStart text caller api) cm)) =
     requests cm @ [\<lparr>role = System, content = system_prompt\<rparr> #
        (let h = conversation_of cm caller @ [\<lparr>role = User, content = text\<rparr>]
         in drop (length h - 10) h)]
   \<and> length (prepare_messages (conversation_of cm caller @ [\<lparr>role = User, content = text\<rparr>])) \<le> 11"
proof -
  obtain a g' cm' where n: "get_response_step (GenStart text caller api) cm = (a, g', cm')"
    by (cases "get_response_step (GenStart text caller api) cm") auto
  have aw: "a = Awaits" using n by (simp add: Let_def)
  have later: "requests (snd (get_response g' cm')) = requests cm'"
    using get_response_requests_later step_not_start[OF n] by simp
  have "requests (snd (get_response (GenStart text caller api) cm)) = requests cm'"
    using n aw later by (subst get_response_unfold) simp
  also have "\<dots> = requests cm @
     [prepare_messages (conversation_of cm caller @ [\<lparr>role = User, content = text\<rparr>])]"
    by (rule step_requests_start[OF n])
  finally have "requests (snd (get_response (GenStart text caller api) cm)) = requests cm @
     [prepare_messages (conversation_of cm caller @ [\<lparr>role = User, content = text\<rparr>])]" .
  then show ?thesis
    by (simp add: prepare_messages_def py_from_last10 Let_def)
qed

subsection \<open>RivaASRClient\<close>

lemma recognize_loop_batches:
  "\<forall>a\<in>set as. resample_audio L a 8000 16000 \<noteq> None \<Longrightarrow> length buf < 50 \<Longrightarrow>
   recognize_loop L (map AudioChunk as) buf =
     map (\<lambda>i. (placeholder_result,
                concat (take 50 (drop (50 * i) (buf @ map (\<lambda>a. the (resample_audio L a 8000 16000)) as)))))
         [0 ..< (length buf + length as) div 50]"
proof (induction as arbitrary: buf)
  case Nil
  then show ?case by simp
next
  case (Cons a as)
  let ?rs = "\<lambda>a. the (resample_audio L a 8000 16000)"
  obtain r where r: "resample_audio L a 8000 16000 = Some r"
    using Cons.prems(1) by auto
  have good: "\<forall>a\<in>set as. resample_audio L a 8000 16000 \<noteq> None"
    using Cons.prems(1) by simp
  show ?case
  proof (cases "length buf = 49")
    case True
    have n: "(length buf + length (a # as)) div 50 = Suc (length as div 50)"
      using True by simp
    have first: "take 50 (buf @ r # map ?rs as) = buf @ [r]"
      using True by simp
    have later: "drop (50 * Suc i) (buf @ r # map ?rs as) = drop (50 * i) (map ?rs as)" for i
      using True by simp
    define F where "F = (\<lambda>i. (placeholder_result, concat (take 50 (drop (50 * i) (buf @ r # map ?rs as)))))"
    have F0: "F 0 = (placeholder_result, concat (buf @ [r]))"
      unfolding F_def using first by simp
    have FS: "F (Suc i) = (placeholder_result, concat (take 50 (drop (50 * i) (map ?rs as))))" for i
      unfolding F_def using later[of i] by simp
    have "recognize_loop L (map AudioChunk (a # as)) buf =
            (placeholder_result, concat (buf @ [r])) # recognize_loop L (map AudioChunk as) []"
      using True r by simp
    also have "recognize_loop L (map AudioChunk as) [] =
        map (\<lambda>i. (placeholder_result, concat (take 50 (drop (50 * i) (map ?rs as))))) [0 ..< length as div 50]"
      using Cons.IH[OF good, of "[]"] by simp
    also have "(placeholder_result, concat (buf @ [r])) #
        map (\<lambda>i. (placeholder_result, concat (take 50 (drop (50 * i) (map ?rs as))))) [0 ..< length as div 50]
        = map F [0 ..< Suc (length as div 50)]"
      unfolding map_upt_Suc by (simp only: F0 FS)
    finally show ?thesis
      unfolding n F_def using r by simp
  next
    case False
    then have short: "length (buf @ [r]) < 50" using Cons.prems(2) by simp
    have "recognize_loop L (map AudioChunk (a # as)) buf = recognize_loop L (map AudioChunk as) (buf @ [r])"
      using short r by simp
    then show ?thesis
      using Cons.IH[OF good short] r by simp
  qed
qed

lemma recognize_loop_stops:
  "\<forall>a\<in>set as. resample_audio L a 8000 16000 \<noteq> None \<Longrightarrow>
   bad = AudioStreamError \<or> (\<exists>a. bad = AudioChunk a \<and> resample_audio L a 8000 16000 = None) \<Longrightarrow>
   recognize_loop L (map AudioChunk as @ bad # rest) buf = recognize_loop L (map AudioChunk as) buf"
  by (induction as arbitrary: buf) (auto simp: Let_def)

text \<open>
  Claim C9. While every frame is resampled without error (\<open>ratecv\<close> from 8000 to
  16000), \<open>streaming_recognize\<close> has yielded \<open>n div 50\<close> results once \<open>n\<close> frames
  are consumed, each the placeholder result; the audio combined for the \<open>i\<close>-th result
  is the resampled frames \<open>50 * i\<close> to \<open>50 * i + 49\<close>. When the stream raises, or
  resampling a frame raises, the results end there and nothing is raised.
\<close>

theorem recognition_batching:
  assumes "\<forall>a\<in>set as. resample_audio L a 8000 16000 \<noteq> None"
  shows "length (streaming_recognize L (map AudioChunk as)) = length as div 50
     \<and> (\<forall>n\<le>length as. length (streaming_recognize L (map AudioChunk (take n as))) = n div 50)
     \<and> (\<forall>r\<in>set (streaming_recognize L (map AudioChunk as)). r = placeholder_result)
     \<and> combined_audio L (map AudioChunk as) =
          map (\<lambda>i. concat (map (\<lambda>a. the (ratecv L a 2 1 8000 16000)) (take 50 (drop (50 * i) as))))
              [0 ..< length as div 50]
     \<and> (\<forall>rest. streaming_recognize L (map AudioChunk as @ AudioStreamError # rest)
                 = streaming_recognize L (map AudioChunk as))
     \<and> (\<forall>bad rest. ratecv L bad 2 1 8000 16000 = None \<longrightarrow>
            streaming_recognize L (map AudioChunk as @ AudioChunk bad # rest)
              = streaming_recognize L (map AudioChunk as))"
proof -
  have count: "length (streaming_recognize L (map AudioChunk xs)) = length xs div 50"
    if "\<forall>a\<in>set xs. resample_audio L a 8000 16000 \<noteq> None" for xs
    using recognize_loop_batches[OF that, of "[]"] by (simp add: streaming_recognize_def)
  have prefixes: "\<forall>n\<le>length as. length (streaming_recognize L (map AudioChunk (take n as))) = n div 50"
  proof (intro allI impI)
    fix n assume "n \<le> length as"
    moreover have "\<forall>a\<in>set (take n as). resample_audio L a 8000 16000 \<noteq> None"
      using assms by (meson in_set_takeD)
    ultimately show "length (streaming_recognize L (map AudioChunk (take n as))) = n div 50"
      using count[of "take n as"] by simp
  qed
  have results: "\<forall>r\<in>set (streaming_recognize L (map AudioChunk as)). r = placeholder_result"
    using recognize_loop_batches[OF assms, of "[]"] by (auto simp: streaming_recognize_def)
  have batches: "combined_audio L (map AudioChunk as) =
          map (\<lambda>i. concat (map (\<lambda>a. the (ratecv L a 2 1 8000 16000)) (take 50 (drop (50 * i) as))))
              [0 ..< length as div 50]"
    using recognize_loop_batches[OF assms, of "[]"]
    by (simp add: combined_audio_def resample_audio_def take_map drop_map comp_def)
  have stream_error: "\<forall>rest. streaming_recognize L (map AudioChunk as @ AudioStreamError # rest)
                 = streaming_recognize L (map AudioChunk as)"
    using recognize_loop_stops[OF assms, of AudioStreamError] by (simp add: streaming_recognize_def)
  have resample_error: "\<forall>bad rest. ratecv L bad 2 1 8000 16000 = None \<longrightarrow>
            streaming_recognize L (map AudioChunk as @ AudioChunk bad # rest)
              = streaming_recognize L (map AudioChunk as)"
    using recognize_loop_stops[OF assms] by (simp add: streaming_recognize_def resample_audio_def)
  show ?thesis
    using count[OF assms] prefixes results batches stream_error resample_error by blast
qed

theorem recognition_batching_witness:
  "resample_audio stub_lib [1, 2] 8000 16000 = Some [1, 1, 2, 2]
   \<and> length (streaming_recognize stub_lib (map AudioChunk (replicate 101 [1, 2]))) = 2
   \<and> length (streaming_recognize stub_lib (map AudioChunk (take 49 (replicate 101 [1, 2])))) = 0
   \<and> streaming_recognize stub_lib (map AudioChunk (replicate 101 [1, 2]) @ AudioChunk [7] # [AudioChunk [1, 2]])
        = streaming_recognize stub_lib (map AudioChunk (replicate 101 [1, 2]))"
proof -
  have r: "resample_audio stub_lib [1, 2] 8000 16000 = Some [1, 1, 2, 2]"
    by (simp add: resample_audio_def stub_lib_def)
  have bad: "ratecv stub_lib [7] 2 1 8000 16000 = None"
    by (simp add: stub_lib_def)
  have h: "\<forall>a\<in>set (replicate 101 [1, 2]). resample_audio stub_lib a 8000 16000 \<noteq> None"
    using r by simp
  from recognition_batching[OF h] r bad show ?thesis
    by simp
qed

subsection \<open>VoiceAgent: teardown\<close>

lemma clear_conversation_idem [simp]:
  "clear_conversation (clear_conversation cm x) x = clear_conversation cm x"
  by (simp add: clear_conversation_def)


lemma cleanup_maps:
  "connections (cleanup_connection c st) c = None"
  "audio_buffers (cleanup_connection c st) c = None"
  "stream_sids (cleanup_connection c st) c = None"
  "call_sids (cleanup_connection c st) c = None"
  "caller_numbers (cleanup_connection c st) c = None"
  "audio_processors (cleanup_connection c st) c = None"
  "output_managers (cleanup_connection c st) c = None"
  "audio_chunkers (cleanup_connection c st) c = None"
  "response_buffers (cleanup_connection c st) c = None"
  "is_speaking (cleanup_connection c st) c = None"
  "last_transcript (cleanup_connection c st) c = None"
  by (simp_all add: cleanup_connection_def Let_def split: option.splits)


lemma cleanup_conversations:
  "conversations (conversation_manager (cleanup_connection c st)) =
     (case caller_numbers st c of
        None \<Rightarrow> conversations (conversation_manager st)
      | Some caller_id \<Rightarrow>
          if caller_id \<noteq> [] then (conversations (conversation_manager st))(caller_id := None)
          else conversations (conversation_manager st))"
  by (auto simp: cleanup_connection_def Let_def clear_conversation_def fun_upd_idem_iff split: option.splits)


lemma two_calls_maps:
  "audio_processors two_calls 1 = Some 0" "caller_numbers two_calls 1 = Some caller_a"
  "caller_numbers two_calls 2 = Some caller_a" "connections two_calls 2 \<noteq> None"
  by (simp_all add: two_calls_def Let_def handle_start_def init_connection_def init_agent_def)

lemma two_calls_history:
  "conversations (conversation_manager two_calls) caller_a
     = Some [\<lparr>role = User, content = ''Hi''\<rparr>, \<lparr>role = Assistant, content = ''Hello''\<rparr>]"
  by (simp add: two_calls_def Let_def handle_start_def init_connection_def init_agent_def
      get_response.simps new_conversation_manager_def append_turn_def conversation_of_def)





text \<open>
  Claim C8, as stated, fails: connections 1 and 2 are live with the same caller; cleaning
  up connection 1 clears the caller's history although connection 2 is still registered.
\<close>

theorem history_cleared_despite_live_session:
  "connections two_calls 2 \<noteq> None \<and> caller_numbers two_calls 2 = Some caller_a
   \<and> caller_numbers two_calls 1 = Some caller_a
   \<and> conversations (conversation_manager two_calls) caller_a
        = Some [\<lparr>role = User, content = ''Hi''\<rparr>, \<lparr>role = Assistant, content = ''Hello''\<rparr>]
   \<and> connections (cleanup_connection 1 two_calls) 2 \<noteq> None
   \<and> conversations (conversation_manager (cleanup_connection 1 two_calls)) caller_a = None"
  using two_calls_maps two_calls_history
  by (simp add: cleanup_conversations caller_a_def) (simp add: cleanup_connection_def Let_def split: option.splits)

text \<open>
  Claim C8, amended. Cleaning up a connection clears the history of its recorded caller
  identity whenever that identity is not empty, whether or not another live connection
  has the same caller; the history of every other caller identity is unchanged.
\<close>

theorem history_cleared_per_caller:
  "conversations (conversation_manager (cleanup_connection c st)) =
     (case caller_numbers st c of
        None \<Rightarrow> conversations (conversation_manager st)
      | Some caller_id \<Rightarrow>
          if caller_id \<noteq> [] then (conversations (conversation_manager st))(caller_id := None)
          else conversations (conversation_manager st))"
  by (rule cleanup_conversations)

subsection \<open>VoiceAgent: the invariant and the speaking flag\<close>

lemma inv_init: "agent_inv init_agent"
  by (simp add: agent_inv_def init_agent_def speaking_def)

lemma inv_init_connection: "agent_inv st \<Longrightarrow> agent_inv (init_connection c st)"
  by (auto simp: agent_inv_def init_connection_def Let_def speaking_def live_def new_chunker_def)

lemma inv_handle_start: "agent_inv st \<Longrightarrow> agent_inv (handle_start d now c ws st)"
  by (auto simp: agent_inv_def handle_start_def Let_def speaking_def live_def)

lemma inv_cleanup: "agent_inv st \<Longrightarrow> agent_inv (cleanup_connection c st)"
  by (auto simp: agent_inv_def cleanup_connection_def Let_def speaking_def live_def split: option.splits if_splits)

lemma inv_read: "agent_inv st \<Longrightarrow> agent_inv (snd (read_is_speaking c st))"
  by (auto simp: agent_inv_def read_is_speaking_def speaking_def live_def split: option.splits)

lemma inv_check: "agent_inv st \<Longrightarrow> check_interruption L pcm c st = (r, st') \<Longrightarrow> agent_inv st'"
  by (auto simp: agent_inv_def check_interruption_def read_is_speaking_def Let_def speaking_def live_def split: option.splits if_splits)

lemma inv_processor_objs [simp]: "agent_inv (st\<lparr>processor_objs := x\<rparr>) = agent_inv st"
  by (simp add: agent_inv_def speaking_def live_def)

lemma inv_handle_media: "agent_inv st \<Longrightarrow> handle_media L p c st = (r, st') \<Longrightarrow> agent_inv st'"
  by (auto simp: handle_media_def Let_def split: option.splits prod.splits outcome.splits if_splits dest: inv_check)

lemma inv_process_message: "agent_inv st \<Longrightarrow> agent_inv (process_message L ev c st)"
proof (cases ev)
  case (MediaEvent p)
  obtain r st' where "handle_media L p c st = (r, st')" by (cases "handle_media L p c st") auto
  then show "agent_inv st \<Longrightarrow> ?thesis" using MediaEvent by (auto simp: process_message_def dest: inv_handle_media)
qed (simp_all add: process_message_def inv_handle_start inv_cleanup)

lemma inv_deliver: "agent_inv st \<Longrightarrow> agent_inv (deliver L c evs st)"
  by (induction evs arbitrary: st) (simp_all add: inv_process_message)

lemma chunkers_check: "check_interruption L pcm c st = (r, st') \<Longrightarrow> chunker_objs st' = chunker_objs st"
  by (auto simp: check_interruption_def read_is_speaking_def Let_def split: option.splits if_splits)

lemma chunkers_handle_media: "handle_media L p c st = (r, st') \<Longrightarrow> chunker_objs st' = chunker_objs st"
  by (auto simp: handle_media_def Let_def split: option.splits prod.splits outcome.splits if_splits dest: chunkers_check)

lemma chunkers_process_message [simp]: "chunker_objs (process_message L ev c st) = chunker_objs st"
proof (cases ev)
  case (MediaEvent p)
  obtain r st' where "handle_media L p c st = (r, st')" by (cases "handle_media L p c st") auto
  then show ?thesis using MediaEvent by (auto simp: process_message_def dest: chunkers_handle_media)
qed (simp_all add: process_message_def handle_start_def Let_def cleanup_connection_def split: option.splits)

lemma chunkers_deliver [simp]: "chunker_objs (deliver L c evs st) = chunker_objs st"
  by (induction evs arbitrary: st) simp_all

text \<open>send_media and send_chunks\<close>

lemma inv_sent [simp]: "agent_inv (st\<lparr>sent := x\<rparr>) = agent_inv st"
  by (simp add: agent_inv_def speaking_def live_def)

lemma send_media_props:
  "send_media L c ws sid chunk ticks st = (r, ticks', st') \<Longrightarrow>
   r \<noteq> Hangs \<and> chunker_objs st' = chunker_objs st \<and> (agent_inv st \<longrightarrow> agent_inv st')"
  by (auto simp: send_media_def Let_def inv_deliver split: prod.splits if_splits)

lemma send_chunks_props:
  "send_chunks L c ws sid chunks ticks st = (r, ticks', st') \<Longrightarrow>
   r \<noteq> Hangs \<and> chunker_objs st' = chunker_objs st \<and> (agent_inv st \<longrightarrow> agent_inv st')"
proof (induction chunks arbitrary: ticks st)
  case Nil
  then show ?case by simp
next
  case (Cons chunk chunks)
  obtain r1 t1 st1 where m: "send_media L c ws sid chunk ticks st = (r1, t1, st1)"
    by (cases "send_media L c ws sid chunk ticks st") auto
  note p = send_media_props[OF m]
  show ?case
  proof (cases "r1 = Returns")
    case True
    then have "send_chunks L c ws sid chunks t1 st1 = (r, ticks', st')"
      using Cons.prems m by simp
    from Cons.IH[OF this] p show ?thesis by simp
  next
    case False
    then have "(r, ticks', st') = (r1, t1, st1)"
      using Cons.prems m by (cases r1) auto
    then show ?thesis using p by simp
  qed
qed

lemma inv_is_speaking_False:
  "agent_inv st \<Longrightarrow> agent_inv (st\<lparr>is_speaking := (is_speaking st)(c \<mapsto> False)\<rparr>)"
  by (auto simp: agent_inv_def speaking_def live_def)

lemma inv_is_speaking_True:
  "agent_inv st \<Longrightarrow> live st c \<Longrightarrow> agent_inv (st\<lparr>is_speaking := (is_speaking st)(c \<mapsto> True)\<rparr>)"
  by (auto simp: agent_inv_def speaking_def live_def)

lemma inv_synthesized [simp]: "agent_inv (st\<lparr>synthesized := x\<rparr>) = agent_inv st"
  by (simp add: agent_inv_def speaking_def live_def)

lemma inv_set_playing [simp]: "agent_inv (set_playing om b st) = agent_inv st"
  by (simp add: agent_inv_def speaking_def live_def set_playing_def)

lemma chunkers_set_playing [simp]: "chunker_objs (set_playing om b st) = chunker_objs st"
  by (simp add: set_playing_def)

lemma inv_chunker_update:
  "agent_inv st \<Longrightarrow> chunk_size k = chunk_size (chunker_objs st ch) \<Longrightarrow>
   agent_inv (st\<lparr>chunker_objs := (chunker_objs st)(ch := k)\<rparr>)"
  by (auto simp: agent_inv_def speaking_def live_def)

lemma read_is_speaking_props:
  "read_is_speaking c st = (b, st') \<Longrightarrow>
   chunker_objs st' = chunker_objs st \<and> (agent_inv st \<longrightarrow> agent_inv st') \<and> (b \<longleftrightarrow> speaking st c)
   \<and> (speaking st' c \<longleftrightarrow> speaking st c)"
  by (auto simp: read_is_speaking_def agent_inv_def speaking_def live_def split: option.splits if_splits)

lemma add_audio_chunk_size:
  "add_audio k a = Some (chunks, k') \<Longrightarrow> chunk_size k' = chunk_size k"
  by (auto simp: add_audio_def)

lemma add_audio_returns: "0 < chunk_size k \<Longrightarrow> add_audio k a \<noteq> None"
  using add_audio_props[of k a] by auto

lemma get_remaining_chunk_size: "chunk_size (snd (get_remaining k)) = chunk_size k"
  by (simp add: get_remaining_def Let_def)

text \<open>The sizes of all chunkers stay as they are.\<close>

lemma synth_loop_props:
  "synth_loop L c ws sid om ch pcm ticks st = (r, ticks', st') \<Longrightarrow>
   0 < chunk_size (chunker_objs st ch) \<Longrightarrow>
   r \<noteq> Hangs \<and> (\<forall>x. chunk_size (chunker_objs st' x) = chunk_size (chunker_objs st x))
   \<and> (agent_inv st \<longrightarrow> agent_inv st')"
proof (induction pcm arbitrary: ticks st)
  case Nil
  then show ?case by auto
next
  case (Cons a pcm)
  show ?case
  proof (cases "is_playing (manager_objs st om)")
    case False
    then show ?thesis using Cons.prems by auto
  next
    case True
    show ?thesis
    proof (cases "lin2ulaw L a")
      case None
      then show ?thesis using Cons.prems True by auto
    next
      case (Some u)
      obtain b st1 where rd: "read_is_speaking c st = (b, st1)"
        by (cases "read_is_speaking c st") auto
      note p1 = read_is_speaking_props[OF rd]
      show ?thesis
      proof (cases b)
        case False
        then show ?thesis using Cons.prems True Some rd p1 by auto
      next
        case b: True
        have pos1: "0 < chunk_size (chunker_objs st1 ch)" using p1 Cons.prems(2) by simp
        then obtain chunks k' where aa: "add_audio (chunker_objs st1 ch) u = Some (chunks, k')"
          using add_audio_returns by fastforce
        let ?st2 = "st1\<lparr>chunker_objs := (chunker_objs st1)(ch := k')\<rparr>"
        have size: "chunk_size k' = chunk_size (chunker_objs st1 ch)"
          using add_audio_chunk_size[OF aa] .
        obtain r3 t3 st3 where sc: "send_chunks L c ws sid chunks ticks ?st2 = (r3, t3, st3)"
          by (cases "send_chunks L c ws sid chunks ticks ?st2") auto
        note p3 = send_chunks_props[OF sc]
        have sizes3: "\<forall>x. chunk_size (chunker_objs st3 x) = chunk_size (chunker_objs st x)"
          using p3 p1 size by simp
        have inv3: "agent_inv st \<longrightarrow> agent_inv st3"
          using p3 p1 inv_chunker_update[OF _ size] by blast
        show ?thesis
        proof (cases "r3 = Returns")
          case True
          then have "synth_loop L c ws sid om ch pcm t3 st3 = (r, ticks', st')"
            using Cons.prems(1) \<open>is_playing (manager_objs st om)\<close> Some rd b aa sc by simp
          from Cons.IH[OF this] sizes3 Cons.prems(2) inv3 show ?thesis by simp
        next
          case False
          then have "(r, ticks', st') = (r3, t3, st3)"
            using Cons.prems(1) \<open>is_playing (manager_objs st om)\<close> Some rd b aa sc by (cases r3) auto
          then show ?thesis using p3 sizes3 inv3 by simp
        qed
      qed
    qed
  qed
qed

lemma synth_try_props:
  assumes "synth_try L c ws sid om ch text ticks st = (r, ticks', st')"
      and "0 < chunk_size (chunker_objs st ch)"
  shows "r \<noteq> Hangs \<and> (\<forall>x. chunk_size (chunker_objs st' x) = chunk_size (chunker_objs st x))
         \<and> (agent_inv st \<and> live st c \<longrightarrow> agent_inv st')"
proof -
  let ?st1 = "st\<lparr>is_speaking := (is_speaking st)(c \<mapsto> True)\<rparr>"
  let ?st2 = "set_playing om True (?st1\<lparr>synthesized := synthesized ?st1 @ [text]\<rparr>)"
  obtain r3 t3 st3 where lp: "synth_loop L c ws sid om ch (synthesize L text) ticks ?st2 = (r3, t3, st3)"
    by (cases "synth_loop L c ws sid om ch (synthesize L text) ticks ?st2") auto
  have pos2: "0 < chunk_size (chunker_objs ?st2 ch)" using assms(2) by simp
  note p = synth_loop_props[OF lp pos2]
  have inv2: "agent_inv st \<and> live st c \<longrightarrow> agent_inv ?st2"
    using inv_is_speaking_True by simp
  have sizes3: "\<forall>x. chunk_size (chunker_objs st3 x) = chunk_size (chunker_objs st x)"
    using p by simp
  show ?thesis
  proof (cases "r3 = Returns")
    case False
    then have "(r, ticks', st') = (r3, t3, st3)"
      using assms(1) lp by (cases r3) (auto simp: synth_try_def Let_def)
    then show ?thesis using p inv2 sizes3 by auto
  next
    case True
    obtain remaining k' where gr: "get_remaining (chunker_objs st3 ch) = (remaining, k')"
      by (cases "get_remaining (chunker_objs st3 ch)") auto
    let ?st4 = "st3\<lparr>chunker_objs := (chunker_objs st3)(ch := k')\<rparr>"
    have size: "chunk_size k' = chunk_size (chunker_objs st3 ch)"
      using get_remaining_chunk_size[of "chunker_objs st3 ch"] gr by simp
    have sizes4: "\<forall>x. chunk_size (chunker_objs ?st4 x) = chunk_size (chunker_objs st x)"
      using sizes3 size by simp
    have inv4: "agent_inv st \<and> live st c \<longrightarrow> agent_inv ?st4"
      using p inv2 inv_chunker_update[OF _ size] by blast
    show ?thesis
    proof (cases "remaining = []")
      case True
      then have "(r, ticks', st') = (Returns, t3, ?st4)"
        using assms(1) lp \<open>r3 = Returns\<close> gr by (simp add: synth_try_def Let_def)
      then show ?thesis using sizes4 inv4 by auto
    next
      case False
      then have "send_media L c ws sid remaining t3 ?st4 = (r, ticks', st')"
        using assms(1) lp \<open>r3 = Returns\<close> gr by (simp add: synth_try_def Let_def)
      from send_media_props[OF this] sizes4 inv4 show ?thesis by auto
    qed
  qed
qed

lemma synthesize_and_send_props:
  assumes "agent_inv st"
      and "synthesize_and_send L c text ticks st = (r, ticks', st')"
  shows "r \<noteq> Hangs \<and> \<not> speaking st' c \<and> agent_inv st'"
proof (cases "live st c")
  case False
  then have "st' = st \<and> r \<noteq> Hangs"
    using assms(2) by (auto simp: synthesize_and_send_def live_def split: option.splits)
  moreover have "\<not> speaking st c" using assms(1) False by (auto simp: agent_inv_def)
  ultimately show ?thesis using assms(1) by simp
next
  case True
  then obtain conn sid om ch where lk: "connections st c = Some conn" "stream_sids st c = Some sid"
    "output_managers st c = Some om" "audio_chunkers st c = Some ch"
    by (auto simp: live_def)
  have pos: "0 < chunk_size (chunker_objs st ch)"
    using assms(1) lk(4) by (auto simp: agent_inv_def)
  obtain r0 t0 st0 where tr: "synth_try L c (websocket conn) sid om ch text ticks st = (r0, t0, st0)"
    by (cases "synth_try L c (websocket conn) sid om ch text ticks st") auto
  note p = synth_try_props[OF tr pos]
  have "(r, ticks', st') = (Returns, t0, st0\<lparr>is_speaking := (is_speaking st0)(c \<mapsto> False)\<rparr>)"
    using assms(2) lk tr p by (cases r0) (auto simp: synthesize_and_send_def)
  moreover have "agent_inv st0" using p assms(1) True by simp
  ultimately show ?thesis
    using inv_is_speaking_False[of st0 c] by (auto simp: speaking_def)
qed

text \<open>
  Claim C10. From every state that satisfies the invariant of the agent, whatever
  happens at the awaits (failing sends, inbound events, an interruption), a call of
  \<open>synthesize_and_send\<close> comes back (it returns, or raises the \<open>KeyError\<close> of a
  failed look-up before its \<open>try\<close>), the connection is then not flagged as speaking, and
  the invariant holds again.
\<close>

theorem speaking_flag_reset:
  assumes "agent_inv st"
      and "synthesize_and_send L c text ticks st = (r, ticks', st')"
  shows "r \<noteq> Hangs \<and> \<not> speaking st' c \<and> agent_inv st'"
  by (rule synthesize_and_send_props[OF assms])

theorem speaking_flag_reset_witness:
  "agent_inv live_call
   \<and> fst (synthesize_and_send stub_lib 1 ''ab'' [\<lparr>send_ok = False, inbound = []\<rparr>] live_call) = Returns
   \<and> \<not> speaking (snd (snd (synthesize_and_send stub_lib 1 ''ab'' [\<lparr>send_ok = False, inbound = []\<rparr>] live_call))) 1"
proof -
  let ?run = "synthesize_and_send stub_lib 1 ''ab'' [\<lparr>send_ok = False, inbound = []\<rparr>] live_call"
  have i: "agent_inv live_call"
    by (simp add: live_call_def inv_handle_start inv_init_connection inv_init)
  have e: "?run = (fst ?run, fst (snd ?run), snd (snd ?run))"
    by simp
  have r: "fst ?run = Returns"
    by code_simp
  from speaking_flag_reset[OF i e] i r show ?thesis
    by simp
qed

subsection \<open>VoiceAgent: interruption\<close>

lemma sent_check: "check_interruption L pcm c st = (r, st') \<Longrightarrow> sent st' = sent st"
  by (auto simp: check_interruption_def read_is_speaking_def Let_def split: option.splits if_splits)

lemma sent_handle_media: "handle_media L p c st = (r, st') \<Longrightarrow> sent st' = sent st"
  by (auto simp: handle_media_def Let_def split: option.splits prod.splits outcome.splits if_splits dest: sent_check)

lemma sent_process_message [simp]: "sent (process_message L ev c st) = sent st"
proof (cases ev)
  case (MediaEvent p)
  obtain r st' where "handle_media L p c st = (r, st')" by (cases "handle_media L p c st") auto
  then show ?thesis using MediaEvent by (auto simp: process_message_def dest: sent_handle_media)
qed (simp_all add: process_message_def handle_start_def Let_def cleanup_connection_def split: option.splits)

lemma sent_deliver [simp]: "sent (deliver L c evs st) = sent st"
  by (induction evs arbitrary: st) simp_all

lemma playing_check:
  "check_interruption L pcm c st = (r, st') \<Longrightarrow> is_playing (manager_objs st' x) \<Longrightarrow> is_playing (manager_objs st x)"
  by (auto simp: check_interruption_def read_is_speaking_def Let_def interrupt_def split: option.splits if_splits)

lemma playing_handle_media:
  "handle_media L p c st = (r, st') \<Longrightarrow> is_playing (manager_objs st' x) \<Longrightarrow> is_playing (manager_objs st x)"
  by (auto simp: handle_media_def Let_def split: option.splits prod.splits outcome.splits if_splits dest: playing_check)

lemma managers_cleanup [simp]: "manager_objs (cleanup_connection c st) = manager_objs st"
  by (simp add: cleanup_connection_def Let_def split: option.splits if_splits)

lemma managers_handle_start [simp]: "manager_objs (handle_start d now c ws st) = manager_objs st"
  by (simp add: handle_start_def Let_def)

lemma playing_process_message:
  "is_playing (manager_objs (process_message L ev c st) x) \<Longrightarrow> is_playing (manager_objs st x)"
proof (cases ev)
  case (MediaEvent p)
  obtain r st' where "handle_media L p c st = (r, st')" by (cases "handle_media L p c st") auto
  then show "is_playing (manager_objs (process_message L ev c st) x) \<Longrightarrow> ?thesis"
    using MediaEvent by (auto simp: process_message_def dest: playing_handle_media)
qed (simp_all add: process_message_def)

lemma playing_deliver:
  "is_playing (manager_objs (deliver L c evs st) x) \<Longrightarrow> is_playing (manager_objs st x)"
  by (induction evs arbitrary: st) (auto dest: playing_process_message)

text \<open>A quiet event leaves a playing session playing.\<close>

lemma quiet_process_message:
  "quiet_event L ev \<Longrightarrow> playing st c om ch \<Longrightarrow> playing (process_message L ev c st) c om ch"
  by (cases ev)
     (auto simp: quiet_event_def playing_def process_message_def handle_media_def check_interruption_def
        read_is_speaking_def Let_def split: option.splits if_splits)

lemma quiet_deliver:
  "list_all (quiet_event L) evs \<Longrightarrow> playing st c om ch \<Longrightarrow> playing (deliver L c evs st) c om ch"
  by (induction evs arbitrary: st) (auto simp: quiet_process_message)

text \<open>A loud media event interrupts a speaking session and sends nothing.\<close>

lemma loud_handle_media:
  assumes "p \<noteq> []" "b64decode L p = Some a" "500 < rms L (ulaw2lin L a)"
      and "is_speaking st c = Some True" "output_managers st c = Some om" "audio_processors st c \<noteq> None"
  shows "\<exists>st'. handle_media L (Some p) c st = (Returns, st') \<and> is_speaking st' c = Some False
           \<and> \<not> is_playing (manager_objs st' om) \<and> sent st' = sent st
           \<and> chunker_objs st' = chunker_objs st"
  using assms
  by (auto simp: handle_media_def check_interruption_def read_is_speaking_def Let_def interrupt_def)

lemma add_audio_one_frame:
  assumes "chunk_size k = 160" "buffer k = []" "length u = 160"
  shows "add_audio k u = Some ([u], k)"
proof -
  have "add_audio_loop 160 u [] = add_audio_loop 160 [] [u]"
    using assms(3) by (subst add_audio_loop.simps) (simp add: py_from_def py_upto_def)
  also have "\<dots> = Some ([u], [])"
    by (subst add_audio_loop.simps) simp
  finally show ?thesis using assms(1,2) by (simp add: add_audio_def)
qed

lemma synthesize_prefix:
  assumes "Suc k * 160 \<le> sample_count L (length text)"
  shows "\<exists>post. synthesize L text = replicate (Suc k) (replicate 320 0) @ post"
proof -
  define sc where "sc = sample_count L (length text)"
  let ?f = "\<lambda>i. take 320 (drop (i * 320) (replicate (sc * 2) (0::byte)))"
  let ?m = "(sc * 2 + 319) div 320"
  have a: "160 + k * 160 \<le> sc" using assms by (simp add: sc_def)
  have m: "Suc k \<le> ?m" using a by arith
  have full: "?f i = replicate 320 0" if "i < Suc k" for i
  proof -
    have "i * 320 + 320 \<le> sc * 2" using that a by arith
    then show ?thesis by (simp add: min_def)
  qed
  have split: "[0 ..< ?m] = [0 ..< Suc k] @ [Suc k ..< ?m]"
    using m by (metis le0 upt_add_eq_append le_Suc_ex)
  have A: "map ?f [0 ..< ?m] = map ?f [0 ..< Suc k] @ map ?f [Suc k ..< ?m]"
    by (subst split) (rule map_append)
  have B: "map ?f [0 ..< Suc k] = map (\<lambda>i. replicate 320 0) [0 ..< Suc k]"
    using full by (intro map_cong) auto
  have C: "map (\<lambda>i. replicate 320 (0::byte)) [0 ..< Suc k] = replicate (Suc k) (replicate 320 0)"
    by (simp add: map_replicate_const del: replicate_Suc upt_Suc)
  have "map ?f [0 ..< ?m] = replicate (Suc k) (replicate 320 0) @ map ?f [Suc k ..< ?m]"
    by (simp only: A B C)
  then show ?thesis
    unfolding synthesize_def Let_def sc_def[symmetric] length_replicate by blast
qed

lemma synth_loop_stopped:
  "\<not> is_playing (manager_objs st om) \<Longrightarrow>
   synth_loop L c ws sid om ch pcm ticks st = (Returns, ticks, set_playing om False st)"
  by (cases pcm) simp_all

lemma chunker_update_same [simp]:
  "st\<lparr>chunker_objs := (chunker_objs st)(ch := chunker_objs st ch)\<rparr> = st"
  by simp

lemma synth_loop_step:
  assumes "lin2ulaw L (replicate 320 0) = Some frame" "length frame = 160"
      and "playing st c om ch" "send_ok t"
  shows "synth_loop L c ws sid om ch (replicate 320 0 # rest) (t # ticks) st =
         synth_loop L c ws sid om ch rest ticks
           (deliver L c (inbound t) (st\<lparr>sent := sent st @ [(ws, MediaMessage sid (b64encode L frame))]\<rparr>))"
proof -
  have rd: "read_is_speaking c st = (True, st)"
    using assms(3) by (simp add: playing_def read_is_speaking_def)
  have aa: "add_audio (chunker_objs st ch) frame = Some ([frame], chunker_objs st ch)"
    using assms(2,3) by (intro add_audio_one_frame) (simp_all add: playing_def)
  have pl: "is_playing (manager_objs st om)" using assms(3) by (simp add: playing_def)
  show ?thesis
    using assms(1,4) rd aa pl by (simp add: send_media_def)
qed

lemma synth_loop_barge_in:
  assumes lin: "lin2ulaw L (replicate 320 0) = Some frame" "length frame = 160"
      and loud: "p \<noteq> []" "b64decode L p = Some a" "500 < rms L (ulaw2lin L a)"
  shows "list_all (quiet_tick L) quiet \<Longrightarrow> playing st c om ch \<Longrightarrow>
     \<exists>st'. synth_loop L c ws sid om ch (replicate (Suc (length quiet)) (replicate 320 0) @ post)
              (quiet @ \<lparr>send_ok = True, inbound = MediaEvent (Some p) # evs\<rparr> # later) st
              = (Returns, later, st')
          \<and> sent st' = sent st @ replicate (Suc (length quiet)) (ws, MediaMessage sid (b64encode L frame))
          \<and> \<not> is_playing (manager_objs st' om) \<and> chunker_objs st' = chunker_objs st"
proof (induction quiet arbitrary: st)
  case Nil
  let ?m = "(ws, MediaMessage sid (b64encode L frame))"
  let ?st1 = "st\<lparr>sent := sent st @ [?m]\<rparr>"
  have p1: "is_speaking ?st1 c = Some True" "output_managers ?st1 c = Some om" "audio_processors ?st1 c \<noteq> None"
    using Nil.prems(2) by (simp_all add: playing_def)
  from loud_handle_media[OF loud p1]
  obtain st2 where h: "handle_media L (Some p) c ?st1 = (Returns, st2)"
    "\<not> is_playing (manager_objs st2 om)" "sent st2 = sent ?st1" "chunker_objs st2 = chunker_objs ?st1"
    by blast
  let ?st3 = "deliver L c evs st2"
  have d: "deliver L c (MediaEvent (Some p) # evs) ?st1 = ?st3"
    using h(1) by (simp add: process_message_def)
  have stopped: "\<not> is_playing (manager_objs ?st3 om)"
    using h(2) playing_deliver by blast
  have "synth_loop L c ws sid om ch (replicate 320 0 # post)
          (\<lparr>send_ok = True, inbound = MediaEvent (Some p) # evs\<rparr> # later) st
        = synth_loop L c ws sid om ch post later ?st3"
    using synth_loop_step[OF lin Nil.prems(2), of "\<lparr>send_ok = True, inbound = MediaEvent (Some p) # evs\<rparr>"] d
    by simp
  also have "\<dots> = (Returns, later, set_playing om False ?st3)"
    by (rule synth_loop_stopped[OF stopped])
  finally show ?case
    using h(3,4) by (simp add: set_playing_def)
next
  case (Cons t quiet)
  let ?m = "(ws, MediaMessage sid (b64encode L frame))"
  let ?st1 = "deliver L c (inbound t) (st\<lparr>sent := sent st @ [?m]\<rparr>)"
  have qt: "quiet_tick L t" and q: "list_all (quiet_tick L) quiet"
    using Cons.prems(1) by simp_all
  have t: "send_ok t" "list_all (quiet_event L) (inbound t)"
    using qt by (simp_all add: quiet_tick_def)
  have "playing (st\<lparr>sent := sent st @ [?m]\<rparr>) c om ch"
    using Cons.prems(2) by (simp add: playing_def)
  then have pl1: "playing ?st1 c om ch"
    using quiet_deliver[OF t(2)] by blast
  from Cons.IH[OF q pl1]
  obtain st' where ih: "synth_loop L c ws sid om ch (replicate (Suc (length quiet)) (replicate 320 0) @ post)
              (quiet @ \<lparr>send_ok = True, inbound = MediaEvent (Some p) # evs\<rparr> # later) ?st1
              = (Returns, later, st')"
     "sent st' = sent ?st1 @ replicate (Suc (length quiet)) ?m"
     "\<not> is_playing (manager_objs st' om)" "chunker_objs st' = chunker_objs ?st1"
    by blast
  have "synth_loop L c ws sid om ch (replicate (Suc (length (t # quiet))) (replicate 320 0) @ post)
              ((t # quiet) @ \<lparr>send_ok = True, inbound = MediaEvent (Some p) # evs\<rparr> # later) st
        = synth_loop L c ws sid om ch (replicate (Suc (length quiet)) (replicate 320 0) @ post)
              (quiet @ \<lparr>send_ok = True, inbound = MediaEvent (Some p) # evs\<rparr> # later) ?st1"
    using synth_loop_step[OF lin Cons.prems(2) t(1)] by simp
  with ih show ?case
    by (simp add: replicate_app_Cons_same)
qed

text \<open>
  Claim C3, amended. A media event whose level is above 500, handled while the connection
  is flagged as speaking, sends nothing to the transport (no clear message), lowers
  \<open>is_playing\<close> of the output manager and lowers the speaking flag. When it arrives
  during the await that follows a frame of a fragment (the chunker holding no partial
  frame, after any number of quiet ticks), the next check of the synthesis loop ends the
  loop: the transport has received exactly the frames sent up to that await, and no
  frame of the fragment follows, however much audio the fragment still has.
\<close>

theorem barge_in_stops_fragment:
  assumes live: "connections st c = Some conn" "stream_sids st c = Some sid"
                "output_managers st c = Some om" "audio_chunkers st c = Some ch"
                "audio_processors st c \<noteq> None"
      and fresh: "chunk_size (chunker_objs st ch) = 160" "buffer (chunker_objs st ch) = []"
      and lin: "lin2ulaw L (replicate 320 0) = Some frame" "length frame = 160"
      and long: "Suc (length quiet) * 160 \<le> sample_count L (length text)"
      and quiet: "list_all (quiet_tick L) quiet"
      and loud: "p \<noteq> []" "b64decode L p = Some a" "500 < rms L (ulaw2lin L a)"
  shows "(\<forall>s. speaking s c \<and> output_managers s c = Some om \<and> audio_processors s c \<noteq> None \<longrightarrow>
            (\<exists>s'. handle_media L (Some p) c s = (Returns, s') \<and> \<not> speaking s' c
                  \<and> \<not> is_playing (manager_objs s' om) \<and> sent s' = sent s))
       \<and> (\<exists>st'. synthesize_and_send L c text
                    (quiet @ \<lparr>send_ok = True, inbound = MediaEvent (Some p) # evs\<rparr> # later) st
                  = (Returns, later, st')
              \<and> sent st' = sent st @ replicate (Suc (length quiet))
                                        (websocket conn, MediaMessage sid (b64encode L frame))
              \<and> \<not> speaking st' c \<and> \<not> is_playing (manager_objs st' om))"
proof
  show "\<forall>s. speaking s c \<and> output_managers s c = Some om \<and> audio_processors s c \<noteq> None \<longrightarrow>
            (\<exists>s'. handle_media L (Some p) c s = (Returns, s') \<and> \<not> speaking s' c
                  \<and> \<not> is_playing (manager_objs s' om) \<and> sent s' = sent s)"
  proof (intro allI impI)
    fix s assume s: "speaking s c \<and> output_managers s c = Some om \<and> audio_processors s c \<noteq> None"
    then have "is_speaking s c = Some True" "output_managers s c = Some om" "audio_processors s c \<noteq> None"
      by (simp_all add: speaking_def)
    from loud_handle_media[OF loud this]
    show "\<exists>s'. handle_media L (Some p) c s = (Returns, s') \<and> \<not> speaking s' c
                  \<and> \<not> is_playing (manager_objs s' om) \<and> sent s' = sent s"
      by (auto simp: speaking_def)
  qed
next
  let ?ticks = "quiet @ \<lparr>send_ok = True, inbound = MediaEvent (Some p) # evs\<rparr> # later"
  let ?ws = "websocket conn"
  let ?st1 = "st\<lparr>is_speaking := (is_speaking st)(c \<mapsto> True)\<rparr>"
  let ?st2 = "set_playing om True (?st1\<lparr>synthesized := synthesized ?st1 @ [text]\<rparr>)"
  obtain post where pcm: "synthesize L text = replicate (Suc (length quiet)) (replicate 320 0) @ post"
    using synthesize_prefix[OF long] by blast
  have pl: "playing ?st2 c om ch"
    using live fresh by (simp add: playing_def set_playing_def)
  from synth_loop_barge_in[OF lin loud quiet pl, of ?ws sid post evs later]
  obtain st3 where lp: "synth_loop L c ?ws sid om ch (synthesize L text) ?ticks ?st2 = (Returns, later, st3)"
    "sent st3 = sent ?st2 @ replicate (Suc (length quiet)) (?ws, MediaMessage sid (b64encode L frame))"
    "\<not> is_playing (manager_objs st3 om)" "chunker_objs st3 = chunker_objs ?st2"
    using pcm by auto
  have empty: "buffer (chunker_objs st3 ch) = []"
    using lp(4) fresh by (simp add: set_playing_def)
  have "synth_try L c ?ws sid om ch text ?ticks st = (Returns, later, st3)"
    using lp(1) empty by (simp add: synth_try_def Let_def get_remaining_def)
  then have "synthesize_and_send L c text ?ticks st
               = (Returns, later, st3\<lparr>is_speaking := (is_speaking st3)(c \<mapsto> False)\<rparr>)"
    using live by (simp add: synthesize_and_send_def)
  moreover have "sent st3 = sent st @ replicate (Suc (length quiet)) (?ws, MediaMessage sid (b64encode L frame))"
    using lp(2) by (simp add: set_playing_def)
  ultimately show "\<exists>st'. synthesize_and_send L c text ?ticks st = (Returns, later, st')
              \<and> sent st' = sent st @ replicate (Suc (length quiet)) (?ws, MediaMessage sid (b64encode L frame))
              \<and> \<not> speaking st' c \<and> \<not> is_playing (manager_objs st' om)"
    using lp(3) by (simp add: speaking_def)
qed

lemma live_call_maps:
  "connections live_call 1 = Some \<lparr>stream_sid = Some ''MZ1'', call_sid = Some ''CA1'',
       caller_number = caller_a, websocket = 1, start_time = 0\<rparr>"
  "stream_sids live_call 1 = Some (Some ''MZ1'')"
  "output_managers live_call 1 = Some 0" "audio_chunkers live_call 1 = Some 0"
  "audio_processors live_call 1 = Some 0" "response_buffers live_call 1 = Some 0"
  "caller_numbers live_call 1 = Some caller_a"
  "chunker_objs live_call 0 = new_chunker" "sent live_call = []" "synthesized live_call = []"
  by (simp_all add: live_call_def handle_start_def init_connection_def init_agent_def Let_def)

theorem barge_in_stops_fragment_witness:
  "list_all (quiet_tick stub_lib) [\<lparr>send_ok = True, inbound = [MediaEvent (Some ''A'')]\<rparr>]
   \<and> 500 < rms stub_lib (ulaw2lin stub_lib (map of_char ''zzzzz''))
   \<and> Suc (length [\<lparr>send_ok = True, inbound = [MediaEvent (Some ''A'')]\<rparr>]) * 160
        \<le> sample_count stub_lib (length ''ab'')
   \<and> (\<exists>st'. synthesize_and_send stub_lib 1 ''ab''
               ([\<lparr>send_ok = True, inbound = [MediaEvent (Some ''A'')]\<rparr>] @
                \<lparr>send_ok = True, inbound = MediaEvent (Some ''zzzzz'') # [MediaEvent (Some ''zzzzz'')]\<rparr> # [])
               live_call = (Returns, [], st')
         \<and> sent st' = [(1, MediaMessage (Some ''MZ1'') (replicate 160 CHR ''/'')),
                        (1, MediaMessage (Some ''MZ1'') (replicate 160 CHR ''/''))]
         \<and> \<not> speaking st' 1)"
proof -
  have q: "list_all (quiet_tick stub_lib) [\<lparr>send_ok = True, inbound = [MediaEvent (Some ''A'')]\<rparr>]"
    by (simp add: quiet_tick_def quiet_event_def stub_lib_def)
  have l: "lin2ulaw stub_lib (replicate 320 0) = Some (replicate 160 255)" "length (replicate 160 (255::byte)) = 160"
    by (simp_all add: stub_lib_def)
  have d: "''zzzzz'' \<noteq> []" "b64decode stub_lib ''zzzzz'' = Some (map of_char ''zzzzz'')"
    "500 < rms stub_lib (ulaw2lin stub_lib (map of_char ''zzzzz''))"
    by (simp_all add: stub_lib_def)
  have n: "Suc (length [\<lparr>send_ok = True, inbound = [MediaEvent (Some ''A'')]\<rparr>]) * 160
        \<le> sample_count stub_lib (length ''ab'')"
    by (simp add: stub_lib_def)
  have f: "chunk_size (chunker_objs live_call 0) = 160" "buffer (chunker_objs live_call 0) = []"
    "audio_processors live_call 1 \<noteq> None"
    by (simp_all add: live_call_maps new_chunker_def)
  have e: "b64encode stub_lib (replicate 160 255) = replicate 160 CHR ''/''"
    by (simp add: stub_lib_def)
  from barge_in_stops_fragment[OF live_call_maps(1,2,3,4) f(3) f(1,2) l n q d,
         of "[MediaEvent (Some ''zzzzz'')]" "[]"]
  have "\<exists>st'. synthesize_and_send stub_lib 1 ''ab''
               ([\<lparr>send_ok = True, inbound = [MediaEvent (Some ''A'')]\<rparr>] @
                \<lparr>send_ok = True, inbound = MediaEvent (Some ''zzzzz'') # [MediaEvent (Some ''zzzzz'')]\<rparr> # [])
               live_call = (Returns, [], st')
         \<and> sent st' = [(1, MediaMessage (Some ''MZ1'') (replicate 160 CHR ''/'')),
                        (1, MediaMessage (Some ''MZ1'') (replicate 160 CHR ''/''))]
         \<and> \<not> speaking st' 1"
    by (simp add: live_call_maps e) blast
  then show ?thesis using q d(3) n by blast
qed

text \<open>
  Claim C3, as stated, fails: a loud media event is handled while connection 1 is
  speaking; nothing is sent by \<open>handle_media\<close>, and the whole transport output of the
  interrupted \<open>synthesize_and_send\<close> is the one media frame sent before the event. No
  clear message is emitted.
\<close>

theorem barge_in_sends_no_clear:
  "500 < rms stub_lib (ulaw2lin stub_lib (the (b64decode stub_lib ''zzzzz'')))
   \<and> speaking (live_call\<lparr>is_speaking := [1 \<mapsto> True]\<rparr>) 1
   \<and> sent (snd (handle_media stub_lib (Some ''zzzzz'') 1 (live_call\<lparr>is_speaking := [1 \<mapsto> True]\<rparr>))) = []
   \<and> sent (snd (snd (synthesize_and_send stub_lib 1 ''ab''
         [\<lparr>send_ok = True, inbound = [MediaEvent (Some ''zzzzz'')]\<rparr>] live_call)))
       = [(1, MediaMessage (Some ''MZ1'') (replicate 160 CHR ''/''))]"
  by code_simp

subsection \<open>VoiceAgent: the response pipeline\<close>

lemma trace_eq_refl [simp]: "trace_eq st st"
  by (simp add: trace_eq_def)

lemma trace_eq_trans: "trace_eq a b \<Longrightarrow> trace_eq b c \<Longrightarrow> trace_eq a c"
  by (simp add: trace_eq_def)

lemma clear_conversation_requests [simp]: "requests (clear_conversation cm x) = requests cm"
  by (simp add: clear_conversation_def)

lemma trace_check: "check_interruption L pcm c st = (r, st') \<Longrightarrow> trace_eq st st'"
  by (auto simp: trace_eq_def check_interruption_def read_is_speaking_def Let_def split: option.splits if_splits)

lemma trace_handle_media: "handle_media L p c st = (r, st') \<Longrightarrow> trace_eq st st'"
  by (auto simp: handle_media_def Let_def split: option.splits prod.splits outcome.splits if_splits dest: trace_check)
     (auto simp: trace_eq_def dest!: trace_check)

lemma trace_process_message: "trace_eq st (process_message L ev c st)"
proof (cases ev)
  case (MediaEvent p)
  obtain r st' where "handle_media L p c st = (r, st')" by (cases "handle_media L p c st") auto
  then show ?thesis using MediaEvent by (auto simp: process_message_def dest: trace_handle_media)
qed (simp_all add: trace_eq_def process_message_def handle_start_def Let_def cleanup_connection_def split: option.splits)

lemma trace_deliver: "trace_eq st (deliver L c evs st)"
proof (induction evs arbitrary: st)
  case (Cons ev evs)
  show ?case using trace_eq_trans[OF trace_process_message[of st L ev c] Cons[of "process_message L ev c st"]] by simp
qed simp

lemma trace_send_media:
  "send_media L c ws sid chunk ticks st = (r, ticks', st') \<Longrightarrow> trace_eq st st'"
  using trace_deliver[of "st\<lparr>sent := sent st @ [(ws, MediaMessage sid (b64encode L chunk))]\<rparr>" L c]
        trace_deliver[of st L c]
  by (auto simp: send_media_def Let_def trace_eq_def split: prod.splits if_splits)

lemma trace_send_chunks:
  "send_chunks L c ws sid chunks ticks st = (r, ticks', st') \<Longrightarrow> trace_eq st st'"
proof (induction chunks arbitrary: ticks st)
  case (Cons chunk chunks)
  obtain r1 t1 st1 where m: "send_media L c ws sid chunk ticks st = (r1, t1, st1)"
    by (cases "send_media L c ws sid chunk ticks st") auto
  note p = trace_send_media[OF m]
  show ?case
  proof (cases "r1 = Returns")
    case True
    then have "send_chunks L c ws sid chunks t1 st1 = (r, ticks', st')"
      using Cons.prems m by simp
    from Cons.IH[OF this] p show ?thesis by (rule trace_eq_trans[rotated])
  next
    case False
    then have "(r, ticks', st') = (r1, t1, st1)"
      using Cons.prems m by (cases r1) auto
    then show ?thesis using p by simp
  qed
qed simp

lemma trace_set_playing [simp]: "trace_eq st (set_playing om b st)"
  by (simp add: trace_eq_def set_playing_def)

lemma trace_read: "read_is_speaking c st = (b, st') \<Longrightarrow> trace_eq st st'"
  by (auto simp: read_is_speaking_def trace_eq_def split: option.splits)

lemma trace_chunker_update [simp]: "trace_eq st (st'\<lparr>chunker_objs := x\<rparr>) = trace_eq st st'"
  by (simp add: trace_eq_def)

lemma trace_synth_loop:
  "synth_loop L c ws sid om ch pcm ticks st = (r, ticks', st') \<Longrightarrow> trace_eq st st'"
proof (induction pcm arbitrary: ticks st)
  case Nil
  then show ?case by auto
next
  case (Cons a pcm)
  show ?case
  proof (cases "is_playing (manager_objs st om)")
    case False
    then show ?thesis using Cons.prems by auto
  next
    case True
    show ?thesis
    proof (cases "lin2ulaw L a")
      case None
      then show ?thesis using Cons.prems True by auto
    next
      case (Some u)
      note lu = Some
      obtain b st1 where rd: "read_is_speaking c st = (b, st1)"
        by (cases "read_is_speaking c st") auto
      note p1 = trace_read[OF rd]
      show ?thesis
      proof (cases b)
        case False
        then show ?thesis using Cons.prems True lu rd p1 by auto
      next
        case b: True
        show ?thesis
        proof (cases "add_audio (chunker_objs st1 ch) u")
          case None
          then show ?thesis using Cons.prems True lu rd b p1 by auto
        next
          case (Some res)
          note aa = Some
          obtain chunks k' where res: "res = (chunks, k')" by (cases res) auto
          let ?st2 = "st1\<lparr>chunker_objs := (chunker_objs st1)(ch := k')\<rparr>"
          obtain r3 t3 st3 where sc: "send_chunks L c ws sid chunks ticks ?st2 = (r3, t3, st3)"
            by (cases "send_chunks L c ws sid chunks ticks ?st2") auto
          have p3: "trace_eq st st3"
            using trace_send_chunks[OF sc] p1 by (auto simp: trace_eq_def)
          show ?thesis
          proof (cases "r3 = Returns")
            case True
            then have "synth_loop L c ws sid om ch pcm t3 st3 = (r, ticks', st')"
              using Cons.prems(1) \<open>is_playing (manager_objs st om)\<close> lu rd b aa res sc by simp
            from Cons.IH[OF this] p3 show ?thesis by (rule trace_eq_trans[rotated])
          next
            case False
            then have "(r, ticks', st') = (r3, t3, st3)"
              using Cons.prems(1) \<open>is_playing (manager_objs st om)\<close> lu rd b aa res sc by (cases r3) auto
            then show ?thesis using p3 by simp
          qed
        qed
      qed
    qed
  qed
qed

lemma trace_synth_try:
  assumes "synth_try L c ws sid om ch text ticks st = (r, ticks', st')"
  shows "requests (conversation_manager st') = requests (conversation_manager st)
         \<and> synthesized st' = synthesized st @ [text]"
proof -
  let ?st1 = "st\<lparr>is_speaking := (is_speaking st)(c \<mapsto> True)\<rparr>"
  let ?st2 = "set_playing om True (?st1\<lparr>synthesized := synthesized ?st1 @ [text]\<rparr>)"
  obtain r3 t3 st3 where lp: "synth_loop L c ws sid om ch (synthesize L text) ticks ?st2 = (r3, t3, st3)"
    by (cases "synth_loop L c ws sid om ch (synthesize L text) ticks ?st2") auto
  have p: "requests (conversation_manager st3) = requests (conversation_manager st)
         \<and> synthesized st3 = synthesized st @ [text]"
    using trace_synth_loop[OF lp] by (simp add: trace_eq_def set_playing_def)
  show ?thesis
  proof (cases "r3 = Returns")
    case False
    then have "(r, ticks', st') = (r3, t3, st3)"
      using assms(1) lp by (cases r3) (auto simp: synth_try_def Let_def)
    then show ?thesis using p by auto
  next
    case True
    obtain remaining k' where gr: "get_remaining (chunker_objs st3 ch) = (remaining, k')"
      by (cases "get_remaining (chunker_objs st3 ch)") auto
    let ?st4 = "st3\<lparr>chunker_objs := (chunker_objs st3)(ch := k')\<rparr>"
    show ?thesis
    proof (cases "remaining = []")
      case True
      then have "(r, ticks', st') = (Returns, t3, ?st4)"
        using assms(1) lp \<open>r3 = Returns\<close> gr by (simp add: synth_try_def Let_def)
      then show ?thesis using p by auto
    next
      case False
      then have "send_media L c ws sid remaining t3 ?st4 = (r, ticks', st')"
        using assms(1) lp \<open>r3 = Returns\<close> gr by (simp add: synth_try_def Let_def)
      from trace_send_media[OF this] p show ?thesis by (simp add: trace_eq_def)
    qed
  qed
qed

lemma synthesize_and_send_requests:
  "synthesize_and_send L c text ticks st = (r, ticks', st') \<Longrightarrow>
   requests (conversation_manager st') = requests (conversation_manager st)"
  by (auto simp: synthesize_and_send_def split: option.splits prod.splits outcome.splits dest: trace_synth_try)

lemma synthesize_and_send_live:
  assumes "connections st c = Some conn" "stream_sids st c = Some sid" "output_managers st c = Some om"
      "audio_chunkers st c = Some ch" "0 < chunk_size (chunker_objs st ch)"
  shows "\<exists>ticks' st'. synthesize_and_send L c text ticks st = (Returns, ticks', st')
           \<and> synthesized st' = synthesized st @ [text]"
proof -
  obtain r0 t0 st0 where tr: "synth_try L c (websocket conn) sid om ch text ticks st = (r0, t0, st0)"
    by (cases "synth_try L c (websocket conn) sid om ch text ticks st") auto
  have nh: "r0 \<noteq> Hangs" using synth_try_props[OF tr assms(5)] by simp
  have "synthesize_and_send L c text ticks st = (Returns, t0, st0\<lparr>is_speaking := (is_speaking st0)(c \<mapsto> False)\<rparr>)"
    using assms(1-4) tr nh by (cases r0) (auto simp: synthesize_and_send_def)
  then show ?thesis using trace_synth_try[OF tr] by simp
qed

lemma buffer_update_same [simp]:
  "st\<lparr>buffer_objs := (buffer_objs st)(rb := buffer_objs st rb)\<rparr> = st"
  by simp

lemma consume_unfold:
  "consume L c rb g ticks st =
     (case get_response_step g (conversation_manager st) of
        (Stops, g', cm') \<Rightarrow> (Returns, ticks, st\<lparr>conversation_manager := cm'\<rparr>)
      | (Awaits, g', cm') \<Rightarrow>
          consume L c rb g' (snd (next_tick ticks))
            (deliver L c (inbound (fst (next_tick ticks))) (st\<lparr>conversation_manager := cm'\<rparr>))
      | (Yields chunk, g', cm') \<Rightarrow>
          (let st1 = st\<lparr>conversation_manager := cm',
                        buffer_objs := (buffer_objs st)(rb := add_chunk (buffer_objs st rb) chunk)\<rparr>
           in if re_search (concat (parts_buffer (buffer_objs st1 rb))) = None
              then consume L c rb g' ticks st1
              else (Raises TypeError, ticks, st1)))"
  by (subst consume.simps)
     (auto simp: get_complete_sentences_eq Let_def split: prod.splits option.splits gen_action.splits)

lemma case_not_start:
  "\<forall>t c api. g \<noteq> GenStart t c api \<Longrightarrow>
   (case g of GenStart text caller_id api \<Rightarrow> [x text caller_id api] | _ \<Rightarrow> []) = []"
  by (cases g) auto

lemma requests_deliver [simp]:
  "requests (conversation_manager (deliver L c evs st)) = requests (conversation_manager st)"
  using trace_deliver[of st L c evs] by (simp add: trace_eq_def)

lemma consume_requests:
  "consume L c rb g ticks st = (r, ticks', st') \<Longrightarrow>
   r \<noteq> Hangs
   \<and> requests (conversation_manager st') = requests (conversation_manager st) @
       (case g of
          GenStart text caller_id api \<Rightarrow>
            [prepare_messages (conversation_of (conversation_manager st) caller_id @ [\<lparr>role = User, content = text\<rparr>])]
        | _ \<Rightarrow> [])"
proof (induction "gen_fuel g" arbitrary: g ticks st rule: less_induct)
  case less
  obtain a g' cm' where n: "get_response_step g (conversation_manager st) = (a, g', cm')"
    by (cases "get_response_step g (conversation_manager st)") auto
  have rq: "requests cm' = requests (conversation_manager st) @
       (case g of
          GenStart text caller_id api \<Rightarrow>
            [prepare_messages (conversation_of (conversation_manager st) caller_id @ [\<lparr>role = User, content = text\<rparr>])]
        | _ \<Rightarrow> [])"
  proof (cases "\<exists>t c api. g = GenStart t c api")
    case True
    then obtain tr caller_id api where g: "g = GenStart tr caller_id api" by blast
    show ?thesis
      unfolding g gen_state.case
      by (rule step_requests_start[OF n[unfolded g]])
  next
    case False
    then have ns: "\<forall>t c api. g \<noteq> GenStart t c api" by blast
    show ?thesis
      unfolding case_not_start[OF ns] append_Nil2
      by (rule step_requests_later[OF n ns])
  qed
  have ns': "\<forall>t c api. g' \<noteq> GenStart t c api" using step_not_start[OF n] by simp
  note later = case_not_start[OF ns']
  show ?case
  proof (cases a)
    case Stops
    then have "(r, ticks', st') = (Returns, ticks, st\<lparr>conversation_manager := cm'\<rparr>)"
      using less.prems n by (subst (asm) consume_unfold) simp
    then show ?thesis using rq by auto
  next
    case Awaits
    let ?st1 = "deliver L c (inbound (fst (next_tick ticks))) (st\<lparr>conversation_manager := cm'\<rparr>)"
    have fuel: "gen_fuel g' < gen_fuel g" using step_fuel[OF n] Awaits by simp
    have "consume L c rb g' (snd (next_tick ticks)) ?st1 = (r, ticks', st')"
      using less.prems n Awaits by (subst (asm) consume_unfold) simp
    from less.hyps[OF fuel this] have "r \<noteq> Hangs"
      "requests (conversation_manager st') = requests (conversation_manager ?st1)"
      unfolding later append_Nil2 by blast+
    then show ?thesis using rq by simp
  next
    case (Yields chunk)
    let ?st1 = "st\<lparr>conversation_manager := cm',
                    buffer_objs := (buffer_objs st)(rb := add_chunk (buffer_objs st rb) chunk)\<rparr>"
    have fuel: "gen_fuel g' < gen_fuel g" using step_fuel[OF n] Yields by simp
    show ?thesis
    proof (cases "re_search (concat (parts_buffer (buffer_objs ?st1 rb))) = None")
      case False
      then have "(r, ticks', st') = (Raises TypeError, ticks, ?st1)"
        using less.prems n Yields by (subst (asm) consume_unfold) (auto simp: Let_def)
      then show ?thesis using rq by auto
    next
      case True
      then have "consume L c rb g' ticks ?st1 = (r, ticks', st')"
        using less.prems n Yields by (subst (asm) consume_unfold) (auto simp: Let_def)
      from less.hyps[OF fuel this] have "r \<noteq> Hangs"
        "requests (conversation_manager st') = requests (conversation_manager ?st1)"
        unfolding later append_Nil2 by blast+
      then show ?thesis using rq by simp
    qed
  qed
qed

lemma clear_new [simp]: "clear x = new_response_buffer"
  by (simp add: clear_def new_response_buffer_def)

lemma respond_try_requests:
  assumes "respond_try L c rb g ticks st = (r, ticks', st')"
  shows "requests (conversation_manager st') = requests (conversation_manager st) @
       (case g of
          GenStart text caller_id api \<Rightarrow>
            [prepare_messages (conversation_of (conversation_manager st) caller_id @ [\<lparr>role = User, content = text\<rparr>])]
        | _ \<Rightarrow> [])"
proof -
  obtain r0 t0 st0 where cs: "consume L c rb g ticks st = (r0, t0, st0)"
    by (cases "consume L c rb g ticks st") auto
  note p = consume_requests[OF cs]
  show ?thesis
  proof (cases "r0 = Returns")
    case False
    then have "(r, ticks', st') = (r0, t0, st0)"
      using assms cs by (cases r0) (auto simp: respond_try_def)
    then show ?thesis using p by auto
  next
    case True
    show ?thesis
    proof (cases "py_strip (rb_get_remaining (buffer_objs st0 rb)) \<noteq> []")
      case False
      then have "(r, ticks', st') = (Returns, t0, st0)"
        using assms cs True by (auto simp: respond_try_def Let_def)
      then show ?thesis using p by auto
    next
      case ne: True
      then have "synthesize_and_send L c (rb_get_remaining (buffer_objs st0 rb)) t0 st0 = (r, ticks', st')"
        using assms cs True by (auto simp: respond_try_def Let_def)
      from synthesize_and_send_requests[OF this] p show ?thesis by simp
    qed
  qed
qed

lemma process_with_ai_requests:
  assumes "connections st c \<noteq> None" "response_buffers st c = Some rb"
  shows "requests (conversation_manager (snd (snd (process_with_ai L c text api ticks st)))) =
         requests (conversation_manager st) @
           [prepare_messages (conversation_of (conversation_manager st)
              (case caller_numbers st c of None \<Rightarrow> ''unknown'' | Some n \<Rightarrow> n) @ [\<lparr>role = User, content = text\<rparr>])]"
proof -
  let ?caller = "case caller_numbers st c of None \<Rightarrow> ''unknown'' | Some n \<Rightarrow> n"
  let ?st1 = "st\<lparr>buffer_objs := (buffer_objs st)(rb := clear (buffer_objs st rb))\<rparr>"
  obtain r1 t1 st2 where rt: "respond_try L c rb (GenStart text ?caller api) ticks ?st1 = (r1, t1, st2)"
    by (cases "respond_try L c rb (GenStart text ?caller api) ticks ?st1") auto
  have p: "requests (conversation_manager st2) = requests (conversation_manager st) @
           [prepare_messages (conversation_of (conversation_manager st) ?caller @ [\<lparr>role = User, content = text\<rparr>])]"
    using respond_try_requests[OF rt] by simp
  show ?thesis
  proof (cases r1)
    case (Raises e)
    obtain r3 t3 st3 where sy: "synthesize_and_send L c processing_apology t1 st2 = (r3, t3, st3)"
      by (cases "synthesize_and_send L c processing_apology t1 st2") auto
    have "process_with_ai L c text api ticks st = (r3, t3, st3)"
      using assms rt Raises sy by (auto simp: process_with_ai_def Let_def)
    then show ?thesis using synthesize_and_send_requests[OF sy] p by simp
  next
    case Returns
    then have "process_with_ai L c text api ticks st = (r1, t1, st2)"
      using assms rt by (auto simp: process_with_ai_def Let_def)
    then show ?thesis using p by simp
  next
    case Hangs
    then have "process_with_ai L c text api ticks st = (r1, t1, st2)"
      using assms rt by (auto simp: process_with_ai_def Let_def)
    then show ?thesis using p by simp
  qed
qed

lemma process_with_ai_clears:
  assumes "connections st c \<noteq> None" "response_buffers st c = Some rb"
  shows "process_with_ai L c text api ticks (st\<lparr>buffer_objs := (buffer_objs st)(rb := x)\<rparr>)
       = process_with_ai L c text api ticks (st\<lparr>buffer_objs := (buffer_objs st)(rb := new_response_buffer)\<rparr>)"
proof -
  obtain conn where "connections st c = Some conn" using assms(1) by auto
  then show ?thesis using assms(2) by (simp add: process_with_ai_def Let_def)
qed

lemma handle_transcript_final:
  "is_final result \<Longrightarrow> py_strip (transcript result) \<noteq> [] \<Longrightarrow>
   handle_transcript L c result api ticks st
     = process_with_ai L c (transcript result) api ticks
         (st\<lparr>last_transcript := (last_transcript st)(c \<mapsto> transcript result)\<rparr>)"
  by (simp add: handle_transcript_def)

text \<open>
  Claim C5. A recognition result that is not final, or whose transcript is empty after
  stripping whitespace, changes nothing: no generation request, no change of
  \<open>last_transcript\<close>, no synthesis. A final result with a non-blank transcript, for a
  registered connection, is stored as \<open>last_transcript\<close> and handed to
  \<open>process_with_ai\<close>; this issues exactly one generation request, whose last message is
  the user turn with that transcript and whose context is the history of the connection's
  caller identity; and whatever the pending-response buffer held before has no effect,
  since it is cleared before generation starts.
\<close>

theorem final_transcript_handling:
  "(\<not> (is_final result \<and> py_strip (transcript result) \<noteq> []) \<longrightarrow>
      handle_transcript L c result api ticks st = (Returns, ticks, st))
   \<and> (is_final result \<and> py_strip (transcript result) \<noteq> []
        \<and> connections st c \<noteq> None \<and> response_buffers st c = Some rb \<longrightarrow>
      handle_transcript L c result api ticks st
        = process_with_ai L c (transcript result) api ticks
            (st\<lparr>last_transcript := (last_transcript st)(c \<mapsto> transcript result)\<rparr>)
      \<and> requests (conversation_manager (snd (snd (handle_transcript L c result api ticks st)))) =
           requests (conversation_manager st) @
             [prepare_messages (conversation_of (conversation_manager st)
                (case caller_numbers st c of None \<Rightarrow> ''unknown'' | Some n \<Rightarrow> n)
                @ [\<lparr>role = User, content = transcript result\<rparr>])]
      \<and> (\<forall>x. handle_transcript L c result api ticks (st\<lparr>buffer_objs := (buffer_objs st)(rb := x)\<rparr>)
             = handle_transcript L c result api ticks
                 (st\<lparr>buffer_objs := (buffer_objs st)(rb := new_response_buffer)\<rparr>)))"
proof (intro conjI impI)
  assume "\<not> (is_final result \<and> py_strip (transcript result) \<noteq> [])"
  then show "handle_transcript L c result api ticks st = (Returns, ticks, st)"
    by (auto simp: handle_transcript_def)
next
  assume a: "is_final result \<and> py_strip (transcript result) \<noteq> []
        \<and> connections st c \<noteq> None \<and> response_buffers st c = Some rb"
  let ?st1 = "st\<lparr>last_transcript := (last_transcript st)(c \<mapsto> transcript result)\<rparr>"
  show h: "handle_transcript L c result api ticks st
        = process_with_ai L c (transcript result) api ticks ?st1"
    using a by (simp add: handle_transcript_def)
  have "connections ?st1 c \<noteq> None" "response_buffers ?st1 c = Some rb" using a by simp_all
  from process_with_ai_requests[OF this, of L "transcript result" api ticks]
  show "requests (conversation_manager (snd (snd (handle_transcript L c result api ticks st)))) =
           requests (conversation_manager st) @
             [prepare_messages (conversation_of (conversation_manager st)
                (case caller_numbers st c of None \<Rightarrow> ''unknown'' | Some n \<Rightarrow> n)
                @ [\<lparr>role = User, content = transcript result\<rparr>])]"
    using h by simp
  show "\<forall>x. handle_transcript L c result api ticks (st\<lparr>buffer_objs := (buffer_objs st)(rb := x)\<rparr>)
             = handle_transcript L c result api ticks
                 (st\<lparr>buffer_objs := (buffer_objs st)(rb := new_response_buffer)\<rparr>)"
  proof
    fix x
    have r: "connections ?st1 c \<noteq> None" "response_buffers ?st1 c = Some rb" using a by simp_all
    have fin: "is_final result" "py_strip (transcript result) \<noteq> []" using a by simp_all
    have eq: "(st\<lparr>buffer_objs := (buffer_objs st)(rb := y)\<rparr>)
                \<lparr>last_transcript := (last_transcript (st\<lparr>buffer_objs := (buffer_objs st)(rb := y)\<rparr>))
                                      (c \<mapsto> transcript result)\<rparr>
              = ?st1\<lparr>buffer_objs := (buffer_objs ?st1)(rb := y)\<rparr>" for y
      by simp
    have "handle_transcript L c result api ticks (st\<lparr>buffer_objs := (buffer_objs st)(rb := x)\<rparr>)
          = process_with_ai L c (transcript result) api ticks (?st1\<lparr>buffer_objs := (buffer_objs ?st1)(rb := x)\<rparr>)"
      unfolding handle_transcript_final[OF fin] eq ..
    also have "\<dots> = process_with_ai L c (transcript result) api ticks
                        (?st1\<lparr>buffer_objs := (buffer_objs ?st1)(rb := new_response_buffer)\<rparr>)"
      by (rule process_with_ai_clears[OF r])
    also have "\<dots> = handle_transcript L c result api ticks
                        (st\<lparr>buffer_objs := (buffer_objs st)(rb := new_response_buffer)\<rparr>)"
      unfolding handle_transcript_final[OF fin] eq ..
    finally show "handle_transcript L c result api ticks (st\<lparr>buffer_objs := (buffer_objs st)(rb := x)\<rparr>)
             = handle_transcript L c result api ticks
                 (st\<lparr>buffer_objs := (buffer_objs st)(rb := new_response_buffer)\<rparr>)" .
  qed
qed

lemma re_search_prefix: "re_search (s @ t) = None \<Longrightarrow> re_search s = None"
proof (induction s)
  case Nil
  then show ?case by simp
next
  case (Cons c s)
  have "takeWhile is_space s \<noteq> [] \<Longrightarrow> takeWhile is_space (s @ t) \<noteq> []"
    by (cases s) (auto split: if_splits)
  then show ?case using Cons by (auto split: if_splits)
qed

lemma re_search_append:
  "re_search s = None \<Longrightarrow> re_search t = None \<Longrightarrow> t \<noteq> [] \<Longrightarrow> \<not> is_space (hd t) \<Longrightarrow>
   re_search (s @ t) = None"
proof (induction s)
  case Nil
  then show ?case by simp
next
  case (Cons c s)
  have "takeWhile is_space (s @ t) \<noteq> [] \<Longrightarrow> takeWhile is_space s \<noteq> []"
    using Cons.prems(3,4) by (cases s; cases t) (auto split: if_splits)
  then show ?case using Cons by (auto split: if_splits)
qed

lemma py_strip_nonempty: "\<exists>x\<in>set s. \<not> is_space x \<Longrightarrow> py_strip s \<noteq> []"
proof -
  assume "\<exists>x\<in>set s. \<not> is_space x"
  then have a: "dropWhile is_space s \<noteq> []" by (simp add: dropWhile_eq_Nil_conv)
  then have "hd (dropWhile is_space s) \<in> set (rev (dropWhile is_space s))" by simp
  moreover have "\<not> is_space (hd (dropWhile is_space s))" using a hd_dropWhile by blast
  ultimately have "dropWhile is_space (rev (dropWhile is_space s)) \<noteq> []"
    by (metis dropWhile_eq_Nil_conv)
  then show ?thesis by (simp add: py_strip_def)
qed

theorem final_transcript_handling_witness:
  "py_strip ''  '' = []
   \<and> handle_transcript stub_lib 1 \<lparr>transcript = ''  '', is_final = True, confidence = 1\<rparr>
        (Streams [Delta (Some ''Sunny'')]) [] live_call = (Returns, [], live_call)
   \<and> py_strip ''What is the weather'' \<noteq> []
   \<and> requests (conversation_manager (snd (snd (handle_transcript stub_lib 1
          \<lparr>transcript = ''What is the weather'', is_final = True, confidence = 1\<rparr>
          (Streams [Delta (Some ''Sunny'')]) [] live_call))))
       = [[\<lparr>role = System, content = system_prompt\<rparr>, \<lparr>role = User, content = ''What is the weather''\<rparr>]]"
proof -
  have blank: "py_strip ''  '' = []"
    by (simp add: py_strip_def is_space_def whitespace_def)
  have spoken: "py_strip ''What is the weather'' \<noteq> []"
    by (rule py_strip_nonempty) (simp add: is_space_def whitespace_def)
  have reg: "connections live_call 1 \<noteq> None" "response_buffers live_call 1 = Some 0"
    by (simp_all add: live_call_maps)
  have start: "requests (conversation_manager live_call) = []"
    "conversation_of (conversation_manager live_call) caller_a = []"
    by (simp_all add: live_call_def handle_start_def init_connection_def init_agent_def Let_def
        new_conversation_manager_def conversation_of_def)
  have one: "prepare_messages [\<lparr>role = User, content = ''What is the weather''\<rparr>]
        = [\<lparr>role = System, content = system_prompt\<rparr>, \<lparr>role = User, content = ''What is the weather''\<rparr>]"
    by (simp add: prepare_messages_def py_from_last10)
  let ?blank = "\<lparr>transcript = ''  '', is_final = True, confidence = 1\<rparr>"
  let ?final = "\<lparr>transcript = ''What is the weather'', is_final = True, confidence = 1\<rparr>"
  let ?api = "Streams [Delta (Some ''Sunny'')]"
  have c1: "\<not> (is_final ?blank \<and> py_strip (transcript ?blank) \<noteq> [])"
    using blank by simp
  have a: "handle_transcript stub_lib 1 ?blank ?api [] live_call = (Returns, [], live_call)"
    by (rule final_transcript_handling[of ?blank stub_lib 1 ?api "[]" live_call 0,
          THEN conjunct1, rule_format, OF c1])
  have c2: "is_final ?final \<and> py_strip (transcript ?final) \<noteq> []
            \<and> connections live_call 1 \<noteq> None \<and> response_buffers live_call 1 = Some 0"
    using spoken reg by simp
  have "requests (conversation_manager (snd (snd (handle_transcript stub_lib 1 ?final ?api [] live_call))))
        = requests (conversation_manager live_call) @
             [prepare_messages (conversation_of (conversation_manager live_call)
                (case caller_numbers live_call 1 of None \<Rightarrow> ''unknown'' | Some n \<Rightarrow> n)
                @ [\<lparr>role = User, content = transcript ?final\<rparr>])]"
    by (rule final_transcript_handling[of ?final stub_lib 1 ?api "[]" live_call 0,
          THEN conjunct2, rule_format, OF c2, THEN conjunct2, THEN conjunct1])
  also have "\<dots> = [[\<lparr>role = System, content = system_prompt\<rparr>, \<lparr>role = User, content = ''What is the weather''\<rparr>]]"
    by (simp add: start one live_call_maps)
  finally have b: "requests (conversation_manager (snd (snd (handle_transcript stub_lib 1 ?final ?api [] live_call))))
       = [[\<lparr>role = System, content = system_prompt\<rparr>, \<lparr>role = User, content = ''What is the weather''\<rparr>]]" .
  show ?thesis using blank spoken a b by blast
qed

lemma get_response_done [simp]: "get_response GenDone cm = ([], cm)"
  by (subst get_response_unfold) simp

lemma step_indep:
  "fst (get_response_step g cm) = fst (get_response_step g cm')
   \<and> fst (snd (get_response_step g cm)) = fst (snd (get_response_step g cm'))"
  by (cases "(g, cm)" rule: get_response_step.cases) (auto simp: Let_def)

lemma get_response_indep:
  "fst (get_response g cm) = fst (get_response g cm')"
proof (induction "gen_fuel g" arbitrary: g cm cm' rule: less_induct)
  case less
  obtain a g' cm1 where n: "get_response_step g cm = (a, g', cm1)"
    by (cases "get_response_step g cm") auto
  obtain cm2 where n': "get_response_step g cm' = (a, g', cm2)"
    using step_indep[of g cm cm'] n by (cases "get_response_step g cm'") auto
  show ?case
  proof (cases a)
    case Stops
    then show ?thesis using n n'
      by (subst get_response_unfold, subst (2) get_response_unfold) simp
  next
    case Awaits
    have "fst (get_response g' cm1) = fst (get_response g' cm2)"
      using less.hyps[OF step_fuel[OF n]] Awaits by simp
    then show ?thesis using n n' Awaits
      by (subst get_response_unfold, subst (2) get_response_unfold) simp
  next
    case (Yields x)
    have "fst (get_response g' cm1) = fst (get_response g' cm2)"
      using less.hyps[OF step_fuel[OF n]] Yields by simp
    then show ?thesis using n n' Yields
      by (subst get_response_unfold, subst (2) get_response_unfold) simp
  qed
qed

lemma get_response_stream_failure:
  "fst (get_response (GenRead caller_id full (map Delta ds @ StreamFailure # rest)) cm)
     = map the (filter (\<lambda>d. d \<noteq> None) ds) @ [generation_apology]"
proof (induction ds arbitrary: full)
  case Nil
  show ?case by (subst get_response_unfold) simp
next
  case (Cons d ds)
  show ?case
  proof (cases d)
    case None
    then show ?thesis using Cons[of full] by (subst get_response_unfold) simp
  next
    case (Some x)
    have "get_response (GenYielded caller_id (full @ x) (map Delta ds @ StreamFailure # rest)) cm
          = get_response (GenRead caller_id (full @ x) (map Delta ds @ StreamFailure # rest)) cm"
      by (subst get_response_unfold) simp
    then show ?thesis using Cons[of "full @ x"] Some by (subst get_response_unfold) simp
  qed
qed

lemma get_response_failure:
  assumes "api = CreateFails \<and> ds = [] \<or> api = Streams (map Delta ds @ StreamFailure # rest)"
  shows "fst (get_response (GenStart text caller_id api) cm)
           = map the (filter (\<lambda>d. d \<noteq> None) ds) @ [generation_apology]"
proof -
  obtain cm2 where st: "get_response_step (GenStart text caller_id api) cm = (Awaits, GenCreate caller_id api, cm2)"
    by (simp add: Let_def)
  have a: "get_response (GenStart text caller_id api) cm = get_response (GenCreate caller_id api) cm2"
    using st by (subst get_response_unfold) simp
  from assms show ?thesis
  proof
    assume "api = CreateFails \<and> ds = []"
    then show ?thesis unfolding a by (subst get_response_unfold) simp
  next
    assume s: "api = Streams (map Delta ds @ StreamFailure # rest)"
    have "get_response (GenCreate caller_id api) cm2
            = get_response (GenRead caller_id [] (map Delta ds @ StreamFailure # rest)) cm2"
      by (subst get_response_unfold) (simp add: s)
    then show ?thesis unfolding a using get_response_stream_failure by simp
  qed
qed

lemma buffers_process_message [simp]: "buffer_objs (process_message L ev c st) = buffer_objs st"
proof (cases ev)
  case (MediaEvent p)
  then show ?thesis
    by (auto simp: process_message_def handle_media_def check_interruption_def read_is_speaking_def Let_def
        split: option.splits prod.splits outcome.splits if_splits)
qed (simp_all add: process_message_def handle_start_def Let_def cleanup_connection_def split: option.splits)

lemma buffers_deliver [simp]: "buffer_objs (deliver L c evs st) = buffer_objs st"
  by (induction evs arbitrary: st) simp_all

lemma synthesized_deliver [simp]: "synthesized (deliver L c evs st) = synthesized st"
  using trace_deliver[of st L c evs] by (simp add: trace_eq_def)

lemma consume_no_boundary:
  "re_search (concat (parts_buffer (buffer_objs st rb)) @ concat (fst (get_response g (conversation_manager st)))) = None \<Longrightarrow>
   \<exists>ticks' st'. consume L c rb g ticks st = (Returns, ticks', st')
     \<and> buffer_objs st' rb = (buffer_objs st rb)
          \<lparr>parts_buffer := parts_buffer (buffer_objs st rb) @ fst (get_response g (conversation_manager st))\<rparr>"
proof (induction "gen_fuel g" arbitrary: g ticks st rule: less_induct)
  case less
  obtain a g' cm' where n: "get_response_step g (conversation_manager st) = (a, g', cm')"
    by (cases "get_response_step g (conversation_manager st)") auto
  show ?case
  proof (cases a)
    case Stops
    have "get_response g (conversation_manager st) = ([], cm')"
      using n Stops by (subst get_response_unfold) simp
    moreover have "consume L c rb g ticks st = (Returns, ticks, st\<lparr>conversation_manager := cm'\<rparr>)"
      using n Stops by (subst consume_unfold) simp
    ultimately show ?thesis by simp
  next
    case Awaits
    let ?st1 = "deliver L c (inbound (fst (next_tick ticks))) (st\<lparr>conversation_manager := cm'\<rparr>)"
    have fuel: "gen_fuel g' < gen_fuel g" using step_fuel[OF n] Awaits by simp
    have gr: "get_response g (conversation_manager st) = get_response g' cm'"
      using n Awaits by (subst get_response_unfold) simp
    have ys: "fst (get_response g' (conversation_manager ?st1)) = fst (get_response g (conversation_manager st))"
      unfolding gr by (rule get_response_indep)
    have nb: "re_search (concat (parts_buffer (buffer_objs ?st1 rb)) @ concat (fst (get_response g' (conversation_manager ?st1)))) = None"
      unfolding ys using less.prems by simp
    have cs: "consume L c rb g ticks st = consume L c rb g' (snd (next_tick ticks)) ?st1"
      using n Awaits by (subst consume_unfold) simp
    from less.hyps[OF fuel nb, of "snd (next_tick ticks)"]
    show ?thesis unfolding cs ys by simp
  next
    case (Yields x)
    let ?ys = "fst (get_response g' cm')"
    let ?st1 = "st\<lparr>conversation_manager := cm',
                    buffer_objs := (buffer_objs st)(rb := add_chunk (buffer_objs st rb) x)\<rparr>"
    have fuel: "gen_fuel g' < gen_fuel g" using step_fuel[OF n] Yields by simp
    have gr: "get_response g (conversation_manager st) = (x # ?ys, snd (get_response g' cm'))"
      using n Yields by (subst get_response_unfold) simp
    have nb: "re_search (concat (parts_buffer (buffer_objs st rb)) @ x @ concat ?ys) = None"
      using less.prems gr by simp
    have nb1: "re_search (concat (parts_buffer (buffer_objs ?st1 rb))) = None"
      using re_search_prefix[of "concat (parts_buffer (buffer_objs st rb)) @ x" "concat ?ys"] nb
      by (simp add: add_chunk_def)
    have nb2: "re_search (concat (parts_buffer (buffer_objs ?st1 rb)) @ concat (fst (get_response g' (conversation_manager ?st1)))) = None"
      using nb by (simp add: add_chunk_def)
    have cs: "consume L c rb g ticks st = consume L c rb g' ticks ?st1"
      using n Yields nb1 by (subst consume_unfold) (simp add: Let_def)
    from less.hyps[OF fuel nb2, of ticks]
    show ?thesis unfolding cs using gr by (auto simp: add_chunk_def)
  qed
qed

lemma live_process_message:
  "ev \<noteq> StopEvent \<Longrightarrow> live st c \<Longrightarrow>
   live (process_message L ev c st) c
   \<and> output_managers (process_message L ev c st) c = output_managers st c
   \<and> audio_chunkers (process_message L ev c st) c = audio_chunkers st c"
proof (cases ev)
  case (MediaEvent p)
  assume "live st c"
  then show ?thesis using MediaEvent
    by (auto simp: live_def process_message_def handle_media_def check_interruption_def read_is_speaking_def Let_def
        split: option.splits prod.splits outcome.splits if_splits)
qed (simp_all add: live_def process_message_def handle_start_def Let_def)

lemma live_deliver:
  "StopEvent \<notin> set evs \<Longrightarrow> live st c \<Longrightarrow>
   live (deliver L c evs st) c
   \<and> output_managers (deliver L c evs st) c = output_managers st c
   \<and> audio_chunkers (deliver L c evs st) c = audio_chunkers st c"
proof (induction evs arbitrary: st)
  case Nil
  then show ?case by simp
next
  case (Cons ev evs)
  have ev: "ev \<noteq> StopEvent" "StopEvent \<notin> set evs" using Cons.prems(1) by auto
  note p = live_process_message[OF ev(1) Cons.prems(2), of L]
  from Cons.IH[OF ev(2), of "process_message L ev c st"] p show ?case by simp
qed

lemma next_tick_no_stop:
  "\<forall>t\<in>set ticks. StopEvent \<notin> set (inbound t) \<Longrightarrow>
   StopEvent \<notin> set (inbound (fst (next_tick ticks)))
   \<and> (\<forall>t\<in>set (snd (next_tick ticks)). StopEvent \<notin> set (inbound t))"
  by (cases ticks) simp_all

lemma consume_keeps:
  "consume L c rb g ticks st = (r, ticks', st') \<Longrightarrow>
   \<forall>t\<in>set ticks. StopEvent \<notin> set (inbound t) \<Longrightarrow> live st c \<Longrightarrow>
   live st' c \<and> output_managers st' c = output_managers st c
   \<and> audio_chunkers st' c = audio_chunkers st c
   \<and> chunker_objs st' = chunker_objs st \<and> synthesized st' = synthesized st"
proof (induction "gen_fuel g" arbitrary: g ticks st rule: less_induct)
  case less
  obtain a g' cm' where n: "get_response_step g (conversation_manager st) = (a, g', cm')"
    by (cases "get_response_step g (conversation_manager st)") auto
  show ?case
  proof (cases a)
    case Stops
    then have "(r, ticks', st') = (Returns, ticks, st\<lparr>conversation_manager := cm'\<rparr>)"
      using less.prems(1) n by (subst (asm) consume_unfold) simp
    then show ?thesis using less.prems(3) by (auto simp: live_def)
  next
    case Awaits
    let ?st0 = "st\<lparr>conversation_manager := cm'\<rparr>"
    let ?st1 = "deliver L c (inbound (fst (next_tick ticks))) ?st0"
    have fuel: "gen_fuel g' < gen_fuel g" using step_fuel[OF n] Awaits by simp
    note nt = next_tick_no_stop[OF less.prems(2)]
    have l0: "live ?st0 c" using less.prems(3) by (simp add: live_def)
    note d = live_deliver[OF nt[THEN conjunct1] l0, of L]
    have cs: "consume L c rb g' (snd (next_tick ticks)) ?st1 = (r, ticks', st')"
      using less.prems(1) n Awaits by (subst (asm) consume_unfold) simp
    from less.hyps[OF fuel cs nt[THEN conjunct2] d[THEN conjunct1]] d
    show ?thesis by simp
  next
    case (Yields x)
    let ?st1 = "st\<lparr>conversation_manager := cm',
                    buffer_objs := (buffer_objs st)(rb := add_chunk (buffer_objs st rb) x)\<rparr>"
    have fuel: "gen_fuel g' < gen_fuel g" using step_fuel[OF n] Yields by simp
    have l1: "live ?st1 c" using less.prems(3) by (simp add: live_def)
    show ?thesis
    proof (cases "re_search (concat (parts_buffer (buffer_objs ?st1 rb))) = None")
      case False
      then have "(r, ticks', st') = (Raises TypeError, ticks, ?st1)"
        using less.prems(1) n Yields by (subst (asm) consume_unfold) (auto simp: Let_def)
      then show ?thesis using l1 by auto
    next
      case True
      then have cs: "consume L c rb g' ticks ?st1 = (r, ticks', st')"
        using less.prems(1) n Yields by (subst (asm) consume_unfold) (auto simp: Let_def)
      from less.hyps[OF fuel cs less.prems(2) l1] show ?thesis by simp
    qed
  qed
qed

lemma apology_no_boundary: "re_search generation_apology = None"
  by code_simp

lemma apology_head: "generation_apology \<noteq> [] \<and> \<not> is_space (hd generation_apology)"
  by (simp add: generation_apology_def is_space_def whitespace_def)

lemma failure_synthesis:
  assumes live: "connections st c = Some conn" "stream_sids st c = Some sid"
                "output_managers st c = Some om" "audio_chunkers st c = Some ch"
                "0 < chunk_size (chunker_objs st ch)" "response_buffers st c = Some rb"
      and kept: "\<forall>t\<in>set ticks. list_all keeps_session (inbound t)"
      and fail: "api = CreateFails \<and> ds = [] \<or> api = Streams (map Delta ds @ StreamFailure # rest)"
      and nb: "re_search (concat (map the (filter (\<lambda>d. d \<noteq> None) ds))) = None"
  shows "\<exists>ticks' st'. process_with_ai L c text api ticks st = (Returns, ticks', st')
           \<and> synthesized st' = synthesized st @
                 [concat (map the (filter (\<lambda>d. d \<noteq> None) ds)) @ generation_apology]"
proof -
  let ?caller = "case caller_numbers st c of None \<Rightarrow> ''unknown'' | Some n \<Rightarrow> n"
  let ?content = "concat (map the (filter (\<lambda>d. d \<noteq> None) ds))"
  let ?st1 = "st\<lparr>buffer_objs := (buffer_objs st)(rb := clear (buffer_objs st rb))\<rparr>"
  let ?g = "GenStart text ?caller api"
  let ?ys = "fst (get_response ?g (conversation_manager ?st1))"
  have ys: "?ys = map the (filter (\<lambda>d. d \<noteq> None) ds) @ [generation_apology]"
    by (rule get_response_failure[OF fail])
  have spoken: "concat ?ys = ?content @ generation_apology"
    unfolding ys by simp
  have noend: "re_search (?content @ generation_apology) = None"
    using re_search_append[OF nb apology_no_boundary] apology_head by blast
  have "re_search (concat (parts_buffer (buffer_objs ?st1 rb)) @ concat ?ys) = None"
    unfolding spoken using noend by (simp add: new_response_buffer_def)
  from consume_no_boundary[OF this, of L c ticks]
  obtain t2 st2 where cs: "consume L c rb ?g ticks ?st1 = (Returns, t2, st2)"
    and buf: "buffer_objs st2 rb = (buffer_objs ?st1 rb)
          \<lparr>parts_buffer := parts_buffer (buffer_objs ?st1 rb) @ ?ys\<rparr>"
    by blast
  have l1: "live ?st1 c" using live by (simp add: live_def)
  have nostop: "\<forall>t\<in>set ticks. StopEvent \<notin> set (inbound t)"
    using kept by (fastforce simp: list_all_iff keeps_session_def)
  note k = consume_keeps[OF cs nostop l1]
  have rem: "rb_get_remaining (buffer_objs st2 rb) = ?content @ generation_apology"
    unfolding buf using spoken by (simp add: rb_get_remaining_def new_response_buffer_def)
  have "hd generation_apology \<in> set (?content @ generation_apology)"
    using apology_head by simp
  then have ne: "py_strip (?content @ generation_apology) \<noteq> []"
    using apology_head by (intro py_strip_nonempty) blast
  obtain conn2 sid2 where maps: "connections st2 c = Some conn2" "stream_sids st2 c = Some sid2"
    using k by (auto simp: live_def)
  have maps2: "output_managers st2 c = Some om" "audio_chunkers st2 c = Some ch"
      "0 < chunk_size (chunker_objs st2 ch)" "synthesized st2 = synthesized st"
    using k live by simp_all
  from synthesize_and_send_live[OF maps maps2(1-3), of L "?content @ generation_apology" t2]
  obtain t' st' where sy: "synthesize_and_send L c (?content @ generation_apology) t2 st2 = (Returns, t', st')"
    "synthesized st' = synthesized st2 @ [?content @ generation_apology]"
    by blast
  have "respond_try L c rb ?g ticks ?st1 = (Returns, t', st')"
    using cs rem ne sy(1) by (simp add: respond_try_def Let_def)
  then have "process_with_ai L c text api ticks st = (Returns, t', st')"
    using live(1,6) by (simp add: process_with_ai_def Let_def)
  then show ?thesis using sy(2) maps2(4) by simp
qed

text \<open>
  Claim C6, amended. When the generation service fails (the request raises, or the stream
  raises after some deltas), the content streamed so far holds no sentence boundary, and
  neither a start nor a stop event of the connection arrives while the transcript is
  processed (media events may, at every await), \<open>process_with_ai\<close> on a live session
  returns normally and makes exactly one synthesis request: the content streamed so far
  followed by the fixed apology of \<open>get_response\<close>. When the failure comes before any
  content, the synthesized text is exactly that fixed apology.
\<close>

theorem generator_failure_apology:
  assumes "connections st c = Some conn" "stream_sids st c = Some sid"
          "output_managers st c = Some om" "audio_chunkers st c = Some ch"
          "0 < chunk_size (chunker_objs st ch)" "response_buffers st c = Some rb"
      and "\<forall>t\<in>set ticks. list_all keeps_session (inbound t)"
      and "api = CreateFails \<and> ds = [] \<or> api = Streams (map Delta ds @ StreamFailure # rest)"
      and "re_search (concat (map the (filter (\<lambda>d. d \<noteq> None) ds))) = None"
  shows "\<exists>ticks' st'. process_with_ai L c text api ticks st = (Returns, ticks', st')
           \<and> synthesized st' = synthesized st @
                 [concat (map the (filter (\<lambda>d. d \<noteq> None) ds)) @ generation_apology]"
  by (rule failure_synthesis[OF assms])

theorem generator_failure_apology_witness:
  "list_all keeps_session [MediaEvent (Some ''AAAA''), OtherEvent]
   \<and> re_search (concat (map the (filter (\<lambda>d. d \<noteq> None) ([] :: string option list)))) = None
   \<and> fst (process_with_ai stub_lib 1 ''Hi'' CreateFails
            [\<lparr>send_ok = True, inbound = [MediaEvent (Some ''AAAA''), OtherEvent]\<rparr>] live_call) = Returns
   \<and> synthesized (snd (snd (process_with_ai stub_lib 1 ''Hi'' CreateFails
            [\<lparr>send_ok = True, inbound = [MediaEvent (Some ''AAAA''), OtherEvent]\<rparr>] live_call)))
        = [generation_apology]"
proof -
  have q: "\<forall>t\<in>set [\<lparr>send_ok = True, inbound = [MediaEvent (Some ''AAAA''), OtherEvent]\<rparr>]. list_all keeps_session (inbound t)"
    by (simp add: keeps_session_def)
  have nb: "re_search (concat (map the (filter (\<lambda>d. d \<noteq> None) ([] :: string option list)))) = None"
    by simp
  have f: "CreateFails = CreateFails \<and> ([] :: string option list) = [] \<or>
           CreateFails = Streams (map Delta [] @ StreamFailure # [])"
    by simp
  have pos: "0 < chunk_size (chunker_objs live_call 0)"
    by (simp add: live_call_maps new_chunker_def)
  from generator_failure_apology[OF live_call_maps(1,2,3,4) pos live_call_maps(6) q f nb,
         of stub_lib "''Hi''"]
  show ?thesis using nb by (auto simp: live_call_maps keeps_session_def)
qed

text \<open>
  Claim C6, as stated, fails: the stream delivers \<open>Sure\<close> and then raises. The one
  text synthesized is \<open>Sure\<close> joined with the apology of \<open>get_response\<close>, which
  is neither of the two fixed apology sentences.
\<close>

theorem partial_content_precedes_apology:
  "synthesized (snd (snd (process_with_ai stub_lib 1 ''Hi''
       (Streams [Delta (Some ''Sure''), StreamFailure]) [] live_call)))
     = [''Sure'' @ generation_apology]
   \<and> ''Sure'' @ generation_apology \<noteq> generation_apology
   \<and> ''Sure'' @ generation_apology \<noteq> processing_apology"
proof -
  have nb: "re_search (concat (map the (filter (\<lambda>d. d \<noteq> None) [Some ''Sure'']))) = None"
    by (simp add: is_ending_def)
  have f: "Streams [Delta (Some ''Sure''), StreamFailure] = CreateFails \<and> [Some ''Sure''] = [] \<or>
           Streams [Delta (Some ''Sure''), StreamFailure] = Streams (map Delta [Some ''Sure''] @ StreamFailure # [])"
    by simp
  have q: "\<forall>t\<in>set ([] :: tick list). list_all keeps_session (inbound t)"
    by simp
  have pos: "0 < chunk_size (chunker_objs live_call 0)"
    by (simp add: live_call_maps new_chunker_def)
  from failure_synthesis[OF live_call_maps(1,2,3,4) pos live_call_maps(6) q f nb, of stub_lib "''Hi''"]
  have "synthesized (snd (snd (process_with_ai stub_lib 1 ''Hi''
       (Streams [Delta (Some ''Sure''), StreamFailure]) [] live_call)))
     = [''Sure'' @ generation_apology]"
    by (auto simp: live_call_maps)
  moreover have "''Sure'' @ generation_apology \<noteq> generation_apology"
    by simp
  moreover have "''Sure'' @ generation_apology \<noteq> processing_apology"
    by (simp add: generation_apology_def processing_apology_def)
  ultimately show ?thesis by blast
qed

text \<open>
  Why the amended claim excludes stop events (a start event would create a second
  greeting task): a stop event handled while
  \<open>chat.completions.create\<close> is awaited runs \<open>cleanup_connection\<close>, and
  \<open>synthesize_and_send\<close> then finds the connection gone and returns at its guard;
  nothing is synthesized.
\<close>

lemma stop_while_generating:
  assumes "connections st c \<noteq> None" "response_buffers st c = Some rb"
  shows "\<exists>st'. process_with_ai L c text CreateFails (\<lparr>send_ok = b, inbound = [StopEvent]\<rparr> # ticks) st
                 = (Returns, ticks, st')
           \<and> synthesized st' = synthesized st"
proof -
  let ?caller = "case caller_numbers st c of None \<Rightarrow> ''unknown'' | Some n \<Rightarrow> n"
  let ?st1 = "st\<lparr>buffer_objs := (buffer_objs st)(rb := clear (buffer_objs st rb))\<rparr>"
  let ?t = "\<lparr>send_ok = b, inbound = [StopEvent]\<rparr>"
  obtain cm2 where s1: "get_response_step (GenStart text ?caller CreateFails) (conversation_manager ?st1)
                          = (Awaits, GenCreate ?caller CreateFails, cm2)"
    by (simp add: Let_def)
  let ?st2 = "cleanup_connection c (?st1\<lparr>conversation_manager := cm2\<rparr>)"
  let ?st3 = "?st2\<lparr>buffer_objs := (buffer_objs ?st2)(rb := add_chunk (buffer_objs ?st2 rb) generation_apology)\<rparr>"
  have b2: "buffer_objs ?st2 rb = new_response_buffer"
    using buffers_deliver[of L c "[StopEvent]" "?st1\<lparr>conversation_manager := cm2\<rparr>"]
    by (simp add: process_message_def)
  have c1: "consume L c rb (GenStart text ?caller CreateFails) (?t # ticks) ?st1
          = consume L c rb (GenCreate ?caller CreateFails) ticks ?st2"
    using s1 by (subst consume_unfold) (simp add: process_message_def)
  have nb: "re_search (concat (parts_buffer (buffer_objs ?st3 rb))) = None"
    using apology_no_boundary b2 by (simp add: add_chunk_def new_response_buffer_def)
  have c2: "consume L c rb (GenCreate ?caller CreateFails) ticks ?st2
          = consume L c rb GenDone ticks ?st3"
    using nb by (subst consume_unfold) (simp add: Let_def)
  have c3: "consume L c rb GenDone ticks ?st3 = (Returns, ticks, ?st3)"
    by (subst consume_unfold) simp
  have cs: "consume L c rb (GenStart text ?caller CreateFails) (?t # ticks) ?st1 = (Returns, ticks, ?st3)"
    unfolding c1 c2 c3 ..
  have rem: "rb_get_remaining (buffer_objs ?st3 rb) = generation_apology"
    using b2 by (simp add: rb_get_remaining_def add_chunk_def new_response_buffer_def)
  have "hd generation_apology \<in> set generation_apology"
    using apology_head by simp
  then have ne: "py_strip generation_apology \<noteq> []"
    using apology_head by (intro py_strip_nonempty) blast
  have gone: "connections ?st3 c = None"
    using cleanup_maps(1)[of c "?st1\<lparr>conversation_manager := cm2\<rparr>"] by simp
  have sy: "synthesize_and_send L c generation_apology ticks ?st3 = (Returns, ticks, ?st3)"
    using gone by (simp add: synthesize_and_send_def)
  have "respond_try L c rb (GenStart text ?caller CreateFails) (?t # ticks) ?st1 = (Returns, ticks, ?st3)"
    using cs rem ne sy by (simp add: respond_try_def Let_def)
  then have "process_with_ai L c text CreateFails (?t # ticks) st = (Returns, ticks, ?st3)"
    using assms by (auto simp: process_with_ai_def Let_def)
  moreover have "synthesized ?st3 = synthesized st"
    using synthesized_deliver[of L c "[StopEvent]" "?st1\<lparr>conversation_manager := cm2\<rparr>"]
    by (simp add: process_message_def)
  ultimately show ?thesis by blast
qed

subsection \<open>VoiceAgent: the invariant along the response pipeline\<close>

lemma inv_conversation_manager [simp]: "agent_inv (st\<lparr>conversation_manager := x\<rparr>) = agent_inv st"
  by (simp add: agent_inv_def speaking_def live_def)

lemma inv_buffer_objs [simp]: "agent_inv (st\<lparr>buffer_objs := x\<rparr>) = agent_inv st"
  by (simp add: agent_inv_def speaking_def live_def)

lemma inv_last_transcript [simp]: "agent_inv (st\<lparr>last_transcript := x\<rparr>) = agent_inv st"
  by (simp add: agent_inv_def speaking_def live_def)

lemma inv_consume:
  "consume L c rb g ticks st = (r, ticks', st') \<Longrightarrow> agent_inv st \<Longrightarrow> agent_inv st'"
proof (induction "gen_fuel g" arbitrary: g ticks st rule: less_induct)
  case less
  obtain a g' cm' where n: "get_response_step g (conversation_manager st) = (a, g', cm')"
    by (cases "get_response_step g (conversation_manager st)") auto
  show ?case
  proof (cases a)
    case Stops
    then show ?thesis using less.prems n by (subst (asm) consume_unfold) auto
  next
    case Awaits
    let ?st1 = "deliver L c (inbound (fst (next_tick ticks))) (st\<lparr>conversation_manager := cm'\<rparr>)"
    have fuel: "gen_fuel g' < gen_fuel g" using step_fuel[OF n] Awaits by simp
    have i1: "agent_inv ?st1" using less.prems(2) by (intro inv_deliver) simp
    have "consume L c rb g' (snd (next_tick ticks)) ?st1 = (r, ticks', st')"
      using less.prems(1) n Awaits by (subst (asm) consume_unfold) simp
    from less.hyps[OF fuel this i1] show ?thesis .
  next
    case (Yields chunk)
    let ?st1 = "st\<lparr>conversation_manager := cm',
                    buffer_objs := (buffer_objs st)(rb := add_chunk (buffer_objs st rb) chunk)\<rparr>"
    have fuel: "gen_fuel g' < gen_fuel g" using step_fuel[OF n] Yields by simp
    have i1: "agent_inv ?st1" using less.prems(2) by simp
    show ?thesis
    proof (cases "re_search (concat (parts_buffer (buffer_objs ?st1 rb))) = None")
      case False
      then have "(r, ticks', st') = (Raises TypeError, ticks, ?st1)"
        using less.prems(1) n Yields by (subst (asm) consume_unfold) (auto simp: Let_def)
      then show ?thesis using i1 by auto
    next
      case True
      then have "consume L c rb g' ticks ?st1 = (r, ticks', st')"
        using less.prems(1) n Yields by (subst (asm) consume_unfold) (auto simp: Let_def)
      from less.hyps[OF fuel this i1] show ?thesis .
    qed
  qed
qed

lemma inv_synthesize_and_send:
  "synthesize_and_send L c text ticks st = (r, ticks', st') \<Longrightarrow> agent_inv st \<Longrightarrow> agent_inv st'"
  using synthesize_and_send_props by blast

lemma inv_respond_try:
  assumes "respond_try L c rb g ticks st = (r, ticks', st')" and "agent_inv st"
  shows "agent_inv st'"
proof -
  obtain r1 t1 st1 where cs: "consume L c rb g ticks st = (r1, t1, st1)"
    by (cases "consume L c rb g ticks st") auto
  note i1 = inv_consume[OF cs assms(2)]
  show ?thesis
  proof (cases "r1 = Returns \<and> py_strip (rb_get_remaining (buffer_objs st1 rb)) \<noteq> []")
    case True
    then have "synthesize_and_send L c (rb_get_remaining (buffer_objs st1 rb)) t1 st1 = (r, ticks', st')"
      using assms(1) cs by (simp add: respond_try_def Let_def)
    from inv_synthesize_and_send[OF this i1] show ?thesis .
  next
    case False
    then have "(r, ticks', st') = (r1, t1, st1)"
      using assms(1) cs by (cases r1) (auto simp: respond_try_def Let_def)
    then show ?thesis using i1 by simp
  qed
qed

lemma inv_process_with_ai:
  assumes "process_with_ai L c text api ticks st = (r, ticks', st')" and "agent_inv st"
  shows "agent_inv st'"
proof (cases "connections st c = None \<or> response_buffers st c = None")
  case True
  then have "st' = st" using assms(1) by (auto simp: process_with_ai_def Let_def split: if_splits)
  then show ?thesis using assms(2) by simp
next
  case False
  then obtain rb where rb: "response_buffers st c = Some rb" and cn: "connections st c \<noteq> None" by auto
  let ?cid = "case caller_numbers st c of None \<Rightarrow> ''unknown'' | Some n \<Rightarrow> n"
  let ?st1 = "st\<lparr>buffer_objs := (buffer_objs st)(rb := clear (buffer_objs st rb))\<rparr>"
  obtain r1 t1 st1 where rt: "respond_try L c rb (GenStart text ?cid api) ticks ?st1 = (r1, t1, st1)"
    by (cases "respond_try L c rb (GenStart text ?cid api) ticks ?st1") auto
  have "agent_inv ?st1" using assms(2) by simp
  note i1 = inv_respond_try[OF rt this]
  show ?thesis
  proof (cases r1)
    case (Raises e)
    then have "synthesize_and_send L c processing_apology t1 st1 = (r, ticks', st')"
      using assms(1) rb cn rt by (simp add: process_with_ai_def Let_def)
    from inv_synthesize_and_send[OF this i1] show ?thesis .
  next
    case Returns
    then have "(r, ticks', st') = (r1, t1, st1)"
      using assms(1) rb cn rt by (simp add: process_with_ai_def Let_def)
    then show ?thesis using i1 by simp
  next
    case Hangs
    then have "(r, ticks', st') = (r1, t1, st1)"
      using assms(1) rb cn rt by (simp add: process_with_ai_def Let_def)
    then show ?thesis using i1 by simp
  qed
qed

lemma inv_handle_transcript:
  assumes "handle_transcript L c result api ticks st = (r, ticks', st')" and "agent_inv st"
  shows "agent_inv st'"
proof (cases "is_final result \<and> py_strip (transcript result) \<noteq> []")
  case True
  let ?st1 = "st\<lparr>last_transcript := (last_transcript st)(c \<mapsto> transcript result)\<rparr>"
  have "process_with_ai L c (transcript result) api ticks ?st1 = (r, ticks', st')"
    using assms(1) True by (simp add: handle_transcript_def)
  moreover have "agent_inv ?st1" using assms(2) by simp
  ultimately show ?thesis by (rule inv_process_with_ai)
next
  case False
  then have "st' = st" using assms(1) by (auto simp: handle_transcript_def)
  then show ?thesis using assms(2) by simp
qed

lemma inv_send_greeting:
  assumes "send_greeting L c ticks st = (r, ticks', st')" and "agent_inv st"
  shows "agent_inv st'"
proof -
  obtain t ts where nt: "next_tick ticks = (t, ts)" by (cases "next_tick ticks") auto
  have "synthesize_and_send L c greeting ts (deliver L c (inbound t) st) = (r, ticks', st')"
    using assms(1) nt by (simp add: send_greeting_def)
  moreover have "agent_inv (deliver L c (inbound t) st)"
    using assms(2) by (rule inv_deliver)
  ultimately show ?thesis by (rule inv_synthesize_and_send)
qed

end
